theory Spec2Isabelle
  imports Main "HOL-Library.Word"
begin

section \<open>JavaScript strings\<close>

text \<open>
  A JavaScript string is a sequence of UTF-16 code units. The regular expressions of the
  source carry no \<^verbatim>\<open>u\<close> flag, so they work on code units too.
  \<open>lit\<close> turns an ASCII literal of the source into such a sequence.
\<close>

type_synonym jschar = "16 word"
type_synonym jsstring = "jschar list"

definition lit :: "string \<Rightarrow> jsstring" where
  "lit s = map of_char s"

text \<open>
  The class \<^verbatim>\<open>\s\<close> and the characters removed by \<^verbatim>\<open>trim()\<close>: WhiteSpace and
  LineTerminator of ECMAScript (TAB, LF, VT, FF, CR, SP, NBSP, U+1680, U+2000..U+200A,
  U+2028, U+2029, U+202F, U+205F, U+3000, U+FEFF).
\<close>

definition is_space :: "jschar \<Rightarrow> bool" where
  "is_space c =
     (c \<in> {0x9, 0xA, 0xB, 0xC, 0xD, 0x20, 0xA0, 0x1680, 0x2028, 0x2029, 0x202F, 0x205F,
            0x3000, 0xFEFF}
      \<or> (0x2000 \<le> c \<and> c \<le> 0x200A))"

text \<open>The class \<^verbatim>\<open>.\<close> (no \<^verbatim>\<open>s\<close> flag): every code unit but a line terminator.\<close>

definition is_line_terminator :: "jschar \<Rightarrow> bool" where
  "is_line_terminator c = (c \<in> {0xA, 0xD, 0x2028, 0x2029})"

definition is_dot :: "jschar \<Rightarrow> bool" where
  "is_dot c = (\<not> is_line_terminator c)"

definition trim :: "jsstring \<Rightarrow> jsstring" where
  "trim s = rev (dropWhile is_space (rev (dropWhile is_space s)))"

text \<open>
  Decimal rendering of a line number inside a template literal. A line number is an array
  index plus one, far below the size at which JavaScript prints a number with an exponent.
\<close>

fun show_nat :: "nat \<Rightarrow> jsstring" where
  "show_nat n =
     (if n < 10 then [of_nat (48 + n)]
      else show_nat (n div 10) @ [of_nat (48 + n mod 10)])"

declare show_nat.simps [simp del]

section \<open>The regular expressions of the source\<close>

text \<open>
  The fragment of regular expressions the source uses: literal text, a greedy
  \<^verbatim>\<open>+\<close> or \<^verbatim>\<open>*\<close> over a character class, a greedy \<^verbatim>\<open>?\<close>, sequencing and a
  capture group. \<open>rematch r s\<close> lists, in the order the backtracking matcher tries them,
  the ways \<open>r\<close> matches a prefix of \<open>s\<close>: each is the captures made and the text left
  over. The head of the list is the match JavaScript reports at that position.
\<close>

datatype re =
    Lit jsstring
  | Plus "jschar \<Rightarrow> bool"
  | Star "jschar \<Rightarrow> bool"
  | Opt re
  | Seq re re
  | Grp re

fun rematch :: "re \<Rightarrow> jsstring \<Rightarrow> (jsstring list \<times> jsstring) list" where
  "rematch (Lit l) s = (if take (length l) s = l then [([], drop (length l) s)] else [])"
| "rematch (Plus p) s =
     map (\<lambda>k. ([], drop k s)) (rev [1 ..< Suc (length (takeWhile p s))])"
| "rematch (Star p) s =
     map (\<lambda>k. ([], drop k s)) (rev [0 ..< Suc (length (takeWhile p s))])"
| "rematch (Opt r) s = rematch r s @ [([], s)]"
| "rematch (Seq a b) s =
     concat (map (\<lambda>(c1, s1). map (\<lambda>(c2, s2). (c1 @ c2, s2)) (rematch b s1)) (rematch a s))"
| "rematch (Grp r) s =
     map (\<lambda>(c, s1). (take (length s - length s1) s # c, s1)) (rematch r s)"

text \<open>
  \<open>re_exec r s\<close> is the search of an unanchored expression: the leftmost position with a
  match, as (text before the match, captures, text after the match).
\<close>

fun re_exec :: "re \<Rightarrow> jsstring \<Rightarrow> (jsstring \<times> jsstring list \<times> jsstring) option" where
  "re_exec r [] =
     (case rematch r [] of [] \<Rightarrow> None | (caps, rest) # _ \<Rightarrow> Some ([], caps, rest))"
| "re_exec r (c # cs) =
     (case rematch r (c # cs) of
        (caps, rest) # _ \<Rightarrow> Some ([], caps, rest)
      | [] \<Rightarrow> map_option (\<lambda>(pre, caps, rest). (c # pre, caps, rest)) (re_exec r cs))"

definition re_test :: "re \<Rightarrow> jsstring \<Rightarrow> bool" where
  "re_test r s = (re_exec r s \<noteq> None)"

text \<open>
  \<^verbatim>\<open>s.replace(r, repl)\<close> without the \<^verbatim>\<open>g\<close> flag: the first match is replaced, the
  replacement built from the captures; a string without a match is returned as it is.
\<close>

definition re_replace :: "re \<Rightarrow> jsstring \<Rightarrow> (jsstring list \<Rightarrow> jsstring) \<Rightarrow> jsstring" where
  "re_replace r s repl =
     (case re_exec r s of None \<Rightarrow> s | Some (pre, caps, rest) \<Rightarrow> pre @ repl caps @ rest)"

text \<open>\<^verbatim>\<open>(line.match(/^\s*/) || [""])[0]\<close>: the match of \<^verbatim>\<open>\s*\<close> anchored at the start.\<close>

definition leading_ws :: "jsstring \<Rightarrow> jsstring" where
  "leading_ws line =
     (case rematch (Star is_space) line of
        [] \<Rightarrow> []
      | (caps, rest) # _ \<Rightarrow> take (length line - length rest) line)"

text \<open>\<^verbatim>\<open>/return\s+null;?/\<close>\<close>

definition re_return_null :: re where
  "re_return_null =
     Seq (Lit (lit ''return'')) (Seq (Plus is_space) (Seq (Lit (lit ''null'')) (Opt (Lit (lit '';'')))))"

text \<open>\<^verbatim>\<open>/return\s+.+;/\<close>\<close>

definition re_return_stmt :: re where
  "re_return_stmt =
     Seq (Lit (lit ''return'')) (Seq (Plus is_space) (Seq (Plus is_dot) (Lit (lit '';''))))"

text \<open>\<^verbatim>\<open>/return\s+(.+);/\<close>\<close>

definition re_return_expr :: re where
  "re_return_expr =
     Seq (Lit (lit ''return'')) (Seq (Plus is_space) (Seq (Grp (Plus is_dot)) (Lit (lit '';''))))"

text \<open>\<^verbatim>\<open>/return\s+Optional\.empty\(\)/\<close>\<close>

definition re_return_optional_empty :: re where
  "re_return_optional_empty =
     Seq (Lit (lit ''return'')) (Seq (Plus is_space) (Lit (lit ''Optional.empty()'')))"

text \<open>\<^verbatim>\<open>/Optional\./\<close>\<close>

definition re_optional_dot :: re where
  "re_optional_dot = Lit (lit ''Optional.'')"

section \<open>Transform helpers\<close>

datatype error = TypeError

text \<open>
  \<^verbatim>\<open>esc = (s) => s.replace(/&/g, "&amp;").replace(/</g, "&lt;")\<close>: with the \<^verbatim>\<open>g\<close> flag
  every occurrence of the one character is replaced.
\<close>

definition esc :: "jsstring \<Rightarrow> jsstring" where
  "esc s =
     concat (map (\<lambda>c. if c = 0x3C then lit ''&lt;'' else [c])
       (concat (map (\<lambda>c. if c = 0x26 then lit ''&amp;'' else [c]) s)))"

text \<open>
  The transforms mutate the array they are given; the model returns the new array. An index
  outside the array reads \<^verbatim>\<open>undefined\<close>, on which no pattern of the source matches, and
  the following \<^verbatim>\<open>line.match\<close> (\<^verbatim>\<open>orig.match\<close>) throws a TypeError.
\<close>

text \<open>The replacement text of \<^verbatim>\<open>applyThrow\<close>; it holds no \<^verbatim>\<open>$\<close> pattern.\<close>

definition upstream_throw :: jsstring where
  \<open>upstream_throw =
     lit ''throw new <span contenteditable="true" class="ce">UpstreamUnavailableException</span>();''\<close>

definition applyThrow :: "jsstring list \<Rightarrow> nat \<Rightarrow> error + jsstring list" where
  \<open>applyThrow lines lineIdx =
     (if lineIdx < length lines then
        (let line = lines ! lineIdx in
         if re_test re_return_null line then
           Inr (lines[lineIdx := re_replace re_return_null line (\<lambda>_. upstream_throw)])
         else
           (let indent = leading_ws line @ lit ''    '' in
            Inr (take (lineIdx + 1) lines
                 @ [indent @ lit ''throw new <span contenteditable="true" class="ce">CustomDomainException</span>();'']
                 @ drop (lineIdx + 1) lines)))
      else Inl TypeError)\<close>

definition applyCatch :: "jsstring list \<Rightarrow> nat \<Rightarrow> error + jsstring list" where
  \<open>applyCatch lines lineIdx =
     (if lineIdx < length lines then
        (let orig = lines ! lineIdx;
             indent = leading_ws orig;
             innerIndent = indent @ lit ''    '';
             wrapped =
               [indent @ lit ''try {'',
                innerIndent @ esc (trim orig),
                indent @ lit ''} catch (<span contenteditable="true" class="ce">Exception</span> e) {'',
                innerIndent @ lit ''// <span contenteditable="true" class="ce">decide: skip/retry/DLQ/translate</span>'',
                indent @ lit ''}'']
         in Inr (take lineIdx lines @ wrapped @ drop (lineIdx + 1) lines))
      else Inl TypeError)\<close>

text \<open>
  The first \<^verbatim>\<open>if\<close> of \<^verbatim>\<open>applyOptionalOf\<close>, on \<^verbatim>\<open>return Optional.empty()\<close>, has an
  empty body: both of its branches continue with the second \<^verbatim>\<open>if\<close>.
\<close>

definition applyOptionalOf :: "jsstring list \<Rightarrow> nat \<Rightarrow> error + jsstring list" where
  \<open>applyOptionalOf lines lineIdx =
     (if lineIdx < length lines then
        (let line = lines ! lineIdx;
             _ = (if re_test re_return_optional_empty line then () else ()) in
         if re_test re_return_stmt line \<and> \<not> re_test re_optional_dot line then
           Inr (lines[lineIdx := re_replace re_return_expr line
                  (\<lambda>caps. lit ''return Optional.of('' @ hd caps @ lit '');'')])
         else
           (let indent = leading_ws line @ lit ''    '' in
            Inr (take (lineIdx + 1) lines
                 @ [indent @ lit ''return Optional.of(<span contenteditable="true" class="ce">value</span>);'']
                 @ drop (lineIdx + 1) lines)))
      else Inl TypeError)\<close>

section \<open>The stage registry\<close>

text \<open>
  \<^verbatim>\<open>STAGES\<close> is the same table in both source files, but for the name of one field:
  \<^verbatim>\<open>expectedKeys\<close> in \<^verbatim>\<open>src/App.jsx\<close>, \<^verbatim>\<open>recommended\<close> in the per-line version, which
  only displays it.
\<close>

record stage =
  key :: jsstring
  title :: jsstring
  goal :: jsstring
  snippet :: "jsstring list"
  expectedKeys :: "jsstring list"
  hint :: jsstring

definition recommended :: "stage \<Rightarrow> jsstring list" where
  "recommended s = expectedKeys s"

definition STAGES :: "stage list" where
  \<open>STAGES =
    [\<lparr>key = lit ''kafka-loop'',
      title = lit ''Stage 1 '' @ [0x2014] @ lit '' Streaming loop'',
      goal = lit ''Process many messages; transient upstream failure should not crash the whole consumer.'',
      snippet =
        [lit ''for (Record record : stream) {'',
         lit ''    processMessage(record); // may call networkCall()'',
         lit ''}''],
      expectedKeys = [lit ''catch'', lit ''throw''],
      hint = lit ''Catch locally to decide skip/retry; throw (translated) so the boundary can act (DLQ/retry).''\<rparr>,
     \<lparr>key = lit ''repo-optional'',
      title = lit ''Stage 2 '' @ [0x2014] @ lit '' Repository lookup'',
      goal = lit ''Find user by email. Absence is normal. DB failures are exceptional.'',
      snippet =
        [lit ''public Optional<User> findByEmail(String email) {'',
         lit ''    // query DB...'',
         lit ''    return Optional.empty(); // sometimes; distinguish from DB failure'',
         lit ''}''],
      expectedKeys = [lit ''opt'', lit ''throw''],
      hint = lit ''Use Optional for normal '' @ [0x27] @ lit ''not found'' @ [0x27]
             @ lit ''; throw on DB/driver errors to signal failure.''\<rparr>,
     \<lparr>key = lit ''controller-boundary'',
      title = lit ''Stage 3 '' @ [0x2014] @ lit '' HTTP boundary'',
      goal = lit ''Translate domain exceptions to proper HTTP status codes.'',
      snippet =
        [lit ''@GetMapping("/orders/{id}")'',
         lit ''public ResponseEntity<?> get(@PathVariable String id) {'',
         lit ''    return ResponseEntity.ok(service.fetch(id));'',
         lit ''}''],
      expectedKeys = [lit ''catch'', lit ''throw''],
      hint = lit ''Let exceptions bubble; catch at @ControllerAdvice and map to 404/409/500.''\<rparr>,
     \<lparr>key = lit ''batch-skip'',
      title = lit ''Stage 4 '' @ [0x2014] @ lit '' Batch job (1M rows)'',
      goal = lit ''Skip bad records (ParseException) and continue; fail fast on corruption.'',
      snippet =
        [lit ''for (String line : lines) {'',
         lit ''    Transaction t = parse(line);'',
         lit ''    writer.write(t);'',
         lit ''}''],
      expectedKeys = [lit ''catch''],
      hint = lit ''Use a skip policy / per-record catch; only throw on critical corruption.''\<rparr>,
     \<lparr>key = lit ''upstream-503'',
      title = lit ''Stage 5 '' @ [0x2014] @ lit '' Upstream 503'',
      goal = lit ''Treat 503 as data; retry/backoff; signal failure upward if exhausted.'',
      snippet =
        [lit ''Response r = http.get("/partner");'',
         lit ''if (r.status() == 200) return r.body();'',
         lit ''return null; // currently hiding errors'',
         []],
      expectedKeys = [lit ''catch'', lit ''throw''],
      hint = lit ''Don'' @ [0x2019]
             @ lit ''t return null on outage; retry then throw UpstreamUnavailableException.''\<rparr>]\<close>

section \<open>The per-line engine (lenient policy)\<close>

text \<open>
  The component state of the per-line version: four \<^verbatim>\<open>useState\<close> cells. An event
  handler reads the state of the current render and sets the next one, so each handler is
  a function from the state to the next state, or to the error it throws (no setter has
  run by then, and the state stays as it was).
\<close>

record state =
  stageIdx :: nat
  linesByStage :: "jsstring \<rightharpoonup> jsstring list"
  appliedCounts :: "jsstring \<rightharpoonup> nat"
  log :: "jsstring list"

text \<open>
  \<^verbatim>\<open>Object.fromEntries(STAGES.map((s) => [s.key, [...s.snippet]]))\<close>: of two entries
  with one key the later would win.
\<close>

definition initial_lines :: "jsstring \<rightharpoonup> jsstring list" where
  "initial_lines = map_of (rev (map (\<lambda>s. (key s, snippet s)) STAGES))"

definition initial_state :: state where
  "initial_state =
     \<lparr>stageIdx = 0, linesByStage = initial_lines, appliedCounts = Map.empty, log = []\<rparr>"

definition canAdvance :: "nat \<Rightarrow> bool" where
  "canAdvance appliedCount = (appliedCount > 0)"

text \<open>\<^verbatim>\<open>appliedCounts[stage.key] || 0\<close>\<close>

definition count_of :: "state \<Rightarrow> jsstring \<Rightarrow> nat" where
  "count_of st k = (case appliedCounts st k of None \<Rightarrow> 0 | Some c \<Rightarrow> c)"

text \<open>
  \<open>actionId\<close> is the text of the drop event (\<^verbatim>\<open>getData("text/plain")\<close>): any string.
  \<open>idx\<close> is the index of the line the drop landed on.
\<close>

definition applyActionAt :: "state \<Rightarrow> jsstring \<Rightarrow> nat \<Rightarrow> error + state" where
  "applyActionAt st actionId idx =
     (if stageIdx st < length STAGES then
        (let stage = STAGES ! stageIdx st in
         case linesByStage st (key stage) of
           None \<Rightarrow> Inl TypeError
         | Some lines \<Rightarrow>
             (case (if actionId = lit ''throw'' then applyThrow lines idx
                    else if actionId = lit ''catch'' then applyCatch lines idx
                    else if actionId = lit ''opt'' then applyOptionalOf lines idx
                    else Inr lines) of
                Inl e \<Rightarrow> Inl e
              | Inr working \<Rightarrow>
                  (let count = count_of st (key stage) + 1 in
                   Inr (st\<lparr>linesByStage := (linesByStage st)(key stage \<mapsto> working),
                           appliedCounts := (appliedCounts st)(key stage \<mapsto> count),
                           log := log st @ [lit ''Applied '' @ actionId @ lit '' to line ''
                                            @ show_nat (idx + 1) @ lit '' in '' @ title stage]\<rparr>))))
      else Inl TypeError)"

text \<open>The message of the last stage; its first character, U+1F389, is two code units.\<close>

definition completion_message :: jsstring where
  "completion_message =
     [0xD83C, 0xDF89] @ lit '' Reached the end. Open the '' @ [0x27]
     @ lit ''Best Practice Outcome'' @ [0x27]
     @ lit '' in the README or compare with your code changes.''"

text \<open>The handler \<^verbatim>\<open>next\<close> of the source.\<close>

definition nextStage :: "state \<Rightarrow> error + state" where
  "nextStage st =
     (if stageIdx st < length STAGES then
        (let stage = STAGES ! stageIdx st;
             count = count_of st (key stage) in
         if \<not> canAdvance count then
           Inr (st\<lparr>log := log st @ [lit ''Hint for '' @ title stage @ lit '': '' @ hint stage]\<rparr>)
         else if int (stageIdx st) < int (length STAGES) - 1 then
           Inr (st\<lparr>stageIdx := stageIdx st + 1\<rparr>)
         else
           Inr (st\<lparr>log := log st @ [completion_message]\<rparr>))
      else Inl TypeError)"

definition resetStage :: "state \<Rightarrow> error + state" where
  "resetStage st =
     (if stageIdx st < length STAGES then
        (let stage = STAGES ! stageIdx st in
         Inr (st\<lparr>linesByStage := (linesByStage st)(key stage \<mapsto> snippet (STAGES ! stageIdx st)),
                 appliedCounts := (appliedCounts st)(key stage \<mapsto> 0),
                 log := log st @ [lit ''Reset '' @ title stage]\<rparr>))
      else Inl TypeError)"

definition resetAll :: "state \<Rightarrow> state" where
  "resetAll st =
     st\<lparr>stageIdx := 0, linesByStage := initial_lines, appliedCounts := Map.empty, log := []\<rparr>"

text \<open>
  The events of the component and the state after each. An error thrown by a handler
  leaves the state of the render it ran in.
\<close>

datatype event = Drop jsstring nat | Next | ResetStage | ResetAll

definition handle :: "state \<Rightarrow> event \<Rightarrow> state" where
  "handle st ev =
     (case (case ev of
              Drop actionId idx \<Rightarrow> applyActionAt st actionId idx
            | Next \<Rightarrow> nextStage st
            | ResetStage \<Rightarrow> resetStage st
            | ResetAll \<Rightarrow> Inr (resetAll st)) of
        Inl e \<Rightarrow> st
      | Inr st' \<Rightarrow> st')"

inductive reachable :: "state \<Rightarrow> bool" where
  r_init: "reachable initial_state"
| r_step: "reachable st \<Longrightarrow> reachable (handle st ev)"

section \<open>The per-stage engine of \<^verbatim>\<open>src/App.jsx\<close> (strict policy)\<close>

text \<open>
  Five \<^verbatim>\<open>useState\<close> cells. \<^verbatim>\<open>applied[stage.key]\<close> is an object keyed by the
  \<^verbatim>\<open>Date.now()\<close> of each drop: an association list, where a second drop at the same
  millisecond overwrites the first. \<^verbatim>\<open>scoreStage\<close> reads it through
  \<^verbatim>\<open>Object.values\<close> with \<^verbatim>\<open>some\<close>, \<^verbatim>\<open>filter\<close> and \<^verbatim>\<open>length\<close> only, which do
  not depend on the order of the properties. The clock is an argument of the handler.
\<close>

record strict_state =
  stageIdxS :: nat
  applied :: "jsstring \<rightharpoonup> (nat \<times> jsstring) list"
  logS :: "jsstring list"
  customException :: jsstring
  showBest :: bool

record score =
  ok :: bool
  used :: nat
  extras :: nat

definition initial_strict :: strict_state where
  "initial_strict =
     \<lparr>stageIdxS = 0, applied = Map.empty, logS = [],
      customException = lit ''UpstreamUnavailableException'', showBest = False\<rparr>"

text \<open>\<^verbatim>\<open>applied[s.key] || {}\<close>\<close>

definition record_of :: "strict_state \<Rightarrow> jsstring \<Rightarrow> (nat \<times> jsstring) list" where
  "record_of st k = (case applied st k of None \<Rightarrow> [] | Some al \<Rightarrow> al)"

text \<open>\<^verbatim>\<open>Object.values(applied[s.key] || {})\<close>\<close>

definition used_values :: "strict_state \<Rightarrow> jsstring \<Rightarrow> jsstring list" where
  "used_values st k = map snd (record_of st k)"

text \<open>\<^verbatim>\<open>u === id || u.startsWith(`${id}:`)\<close>\<close>

definition is_action :: "jsstring \<Rightarrow> jsstring \<Rightarrow> bool" where
  "is_action u ident = (u = ident \<or> take (length (ident @ lit '':'')) u = ident @ lit '':'')"

text \<open>\<^verbatim>\<open>{ ...(applied[stage.key] || {}), [Date.now()]: chosen }\<close>\<close>

fun put :: "nat \<Rightarrow> jsstring \<Rightarrow> (nat \<times> jsstring) list \<Rightarrow> (nat \<times> jsstring) list" where
  "put k v [] = [(k, v)]"
| "put k v (p # ps) = (if fst p = k then (k, v) # ps else p # put k v ps)"

definition applyAction :: "strict_state \<Rightarrow> jsstring \<Rightarrow> nat \<Rightarrow> error + strict_state" where
  "applyAction st actionId now =
     (if stageIdxS st < length STAGES then
        (let stage = STAGES ! stageIdxS st;
             chosen = (if actionId = lit ''throw'' \<and> customException st \<noteq> []
                       then lit ''throw:'' @ customException st else actionId);
             nxt = put now chosen (record_of st (key stage))
         in Inr (st\<lparr>applied := (applied st)(key stage \<mapsto> nxt),
                    logS := logS st @
                      [lit ''Applied ''
                       @ (if actionId = lit ''throw''
                          then lit ''Throw('' @ customException st @ lit '')'' else actionId)
                       @ lit '' to '' @ title stage]\<rparr>))
      else Inl TypeError)"

definition scoreStage :: "strict_state \<Rightarrow> stage \<Rightarrow> score" where
  "scoreStage st s =
     (let usedv = used_values st (key s);
          has = (\<lambda>ident. list_ex (\<lambda>u. is_action u ident) usedv);
          needed = expectedKeys s
      in \<lparr>ok = list_all has needed,
          used = length usedv,
          extras = length (filter (\<lambda>u. \<not> list_ex (\<lambda>k. is_action u k) needed) usedv)\<rparr>)"

text \<open>
  The action kind of a recorded entry, as the specification counts it: the entry without an
  attached parameter, that is the text before the first colon (\<^verbatim>\<open>throw:Name\<close> has the
  kind \<^verbatim>\<open>throw\<close>).
\<close>

definition kind_of :: "jsstring \<Rightarrow> jsstring" where
  "kind_of u = takeWhile (\<lambda>c. c \<noteq> 0x3A) u"

definition goNext :: "strict_state \<Rightarrow> error + strict_state" where
  "goNext st =
     (if stageIdxS st < length STAGES then
        (let stage = STAGES ! stageIdxS st;
             result = scoreStage st stage in
         if \<not> ok result then
           Inr (st\<lparr>logS := logS st @ [lit ''Hint for '' @ title stage @ lit '': '' @ hint stage]\<rparr>)
         else if int (stageIdxS st) < int (length STAGES) - 1 then
           Inr (st\<lparr>stageIdxS := stageIdxS st + 1\<rparr>)
         else Inr (st\<lparr>showBest := True\<rparr>))
      else Inl TypeError)"

definition reset :: "strict_state \<Rightarrow> strict_state" where
  "reset st = st\<lparr>stageIdxS := 0, applied := Map.empty, logS := [], showBest := False\<rparr>"

text \<open>The input field of the exception name and the button \<^verbatim>\<open>Need a hint\<close>.\<close>

definition setCustomException :: "strict_state \<Rightarrow> jsstring \<Rightarrow> strict_state" where
  "setCustomException st v = st\<lparr>customException := v\<rparr>"

definition needHint :: "strict_state \<Rightarrow> error + strict_state" where
  "needHint st =
     (if stageIdxS st < length STAGES then
        Inr (st\<lparr>logS := logS st @ [lit ''Hint: '' @ hint (STAGES ! stageIdxS st)]\<rparr>)
      else Inl TypeError)"

datatype eventS = DropS jsstring nat | NextS | Restart | Typed jsstring | NeedHint

definition handleS :: "strict_state \<Rightarrow> eventS \<Rightarrow> strict_state" where
  "handleS st ev =
     (case (case ev of
              DropS actionId now \<Rightarrow> applyAction st actionId now
            | NextS \<Rightarrow> goNext st
            | Restart \<Rightarrow> Inr (reset st)
            | Typed v \<Rightarrow> Inr (setCustomException st v)
            | NeedHint \<Rightarrow> needHint st) of
        Inl e \<Rightarrow> st
      | Inr st' \<Rightarrow> st')"

text \<open>
  The drops of a sequence of events, each with its action identifier and its time stamp,
  and the sequences made of drops and of edits of the exception name only.
\<close>

definition dropped :: "eventS list \<Rightarrow> (jsstring \<times> nat) list" where
  "dropped evs =
     concat (map (\<lambda>e. case e of DropS actionId now \<Rightarrow> [(actionId, now)] | _ \<Rightarrow> []) evs)"

definition drop_or_typed :: "eventS \<Rightarrow> bool" where
  "drop_or_typed e = (case e of DropS _ _ \<Rightarrow> True | Typed _ \<Rightarrow> True | _ \<Rightarrow> False)"

inductive reachableS :: "strict_state \<Rightarrow> bool" where
  s_init: "reachableS initial_strict"
| s_step: "reachableS st \<Longrightarrow> reachableS (handleS st ev)"

section \<open>Well-formed lines\<close>

text \<open>
  \<open>occurs w s\<close>: the text \<open>w\<close> occurs in \<open>s\<close>, as the search of the literal pattern \<open>w\<close>
  decides it.

  Two properties of a line, which the lines of the templates have and which the three
  transforms keep (shown below), so that every line of every working sequence has them:
  the word \<^verbatim>\<open>return\<close> occurs at most once in the line, and each \<^verbatim>\<open>Optional.\<close> in
  it stands right after \<^verbatim>\<open>return\<close> and one space.
\<close>

definition occurs :: "jsstring \<Rightarrow> jsstring \<Rightarrow> bool" where
  "occurs w s = re_test (Lit w) s"

definition one_return :: "jsstring \<Rightarrow> bool" where
  "one_return l = (\<not> (\<exists>a b c. l = a @ lit ''return'' @ b @ lit ''return'' @ c))"

definition optional_after_return :: "jsstring \<Rightarrow> bool" where
  "optional_after_return l =
     (\<forall>a b. l = a @ lit ''Optional.'' @ b \<longrightarrow> (\<exists>a'. a = a' @ lit ''return ''))"

definition line_ok :: "jsstring \<Rightarrow> bool" where
  "line_ok l = (one_return l \<and> optional_after_return l)"

definition lines_ok :: "state \<Rightarrow> bool" where
  "lines_ok st = (\<forall>k ls. linesByStage st k = Some ls \<longrightarrow> (\<forall>l \<in> set ls. line_ok l))"

section \<open>Facts about the helpers and the registry\<close>

lemma length_STAGES: "length STAGES = 5"
  by (simp add: STAGES_def)

lemma leading_ws_takeWhile: "leading_ws s = takeWhile is_space s"
proof -
  let ?n = "length (takeWhile is_space s)"
  have "rev [0 ..< Suc ?n] = ?n # rev [0 ..< ?n]" by simp
  then have "rematch (Star is_space) s = ([], drop ?n s) # map (\<lambda>k. ([], drop k s)) (rev [0 ..< ?n])"
    by simp
  moreover have "?n \<le> length s" by (rule length_takeWhile_le)
  moreover have "take ?n s = takeWhile is_space s"
    by (metis takeWhile_eq_take)
  ultimately show ?thesis
    by (simp add: leading_ws_def)
qed

lemma esc_plain: "0x26 \<notin> set s \<Longrightarrow> 0x3C \<notin> set s \<Longrightarrow> esc s = s"
  by (induction s) (auto simp: esc_def)


lemma keys_distinct: "distinct (map key STAGES)"
  by (simp add: STAGES_def lit_def)

lemma initial_lines_stage:
  "i < length STAGES \<Longrightarrow> initial_lines (key (STAGES ! i)) = Some (snippet (STAGES ! i))"
proof -
  assume "i < length STAGES"
  then have "(key (STAGES ! i), snippet (STAGES ! i)) \<in> set (rev (map (\<lambda>s. (key s, snippet s)) STAGES))"
    by (auto simp: in_set_conv_nth intro!: exI[of _ i])
  moreover have "distinct (map fst (rev (map (\<lambda>s. (key s, snippet s)) STAGES)))"
    using keys_distinct by (simp add: distinct_rev rev_map[symmetric] comp_def)
  ultimately show ?thesis
    unfolding initial_lines_def by (rule map_of_is_SomeI[rotated])
qed

section \<open>The Catch transform\<close>




section \<open>Facts about the regular expressions\<close>

text \<open>
  What \<open>rematch\<close> lists, as sets: the declarative reading of each construct. The order of
  the list matters for the match that is reported, not for whether there is one.
\<close>

lemma rematch_suffix:
  "(c, s1) \<in> set (rematch r s) \<Longrightarrow> \<exists>m. s = m @ s1"
proof (induction r arbitrary: s c s1)
  case (Lit l)
  then have "s1 = drop (length l) s" by (auto split: if_splits)
  then have "s = take (length l) s @ s1" by simp
  then show ?case by blast
next
  case (Plus p)
  then obtain k where "s1 = drop k s" by auto
  then have "s = take k s @ s1" by simp
  then show ?case by blast
next
  case (Star p)
  then obtain k where "s1 = drop k s" by auto
  then have "s = take k s @ s1" by simp
  then show ?case by blast
next
  case (Opt r)
  then show ?case by auto
next
  case (Seq a b)
  from Seq.prems obtain c1 sa c2 where
    "(c1, sa) \<in> set (rematch a s)" "(c2, s1) \<in> set (rematch b sa)"
    by auto
  with Seq.IH show ?case by (metis append.assoc)
next
  case (Grp r)
  then show ?case by auto
qed

lemma rematch_length: "(c, s1) \<in> set (rematch r s) \<Longrightarrow> length s1 \<le> length s"
  by (drule rematch_suffix) auto

lemma re_exec_Some:
  "re_exec r s = Some (pre, caps, rest) \<Longrightarrow>
     (\<exists>m tl. s = pre @ m @ rest \<and> rematch r (m @ rest) = (caps, rest) # tl)
     \<and> (\<forall>p < length pre. rematch r (drop p s) = [])"
proof (induction s arbitrary: pre)
  case Nil
  then obtain tl where t: "rematch r [] = (caps, rest) # tl" and p: "pre = []"
    by (auto split: list.splits)
  then have "(caps, rest) \<in> set (rematch r [])" by simp
  then have "rest = []" by (auto dest: rematch_suffix)
  then show ?case using t p by simp
next
  case (Cons c cs)
  show ?case
  proof (cases "rematch r (c # cs)")
    case Nil
    with Cons.prems obtain pre' where e: "re_exec r cs = Some (pre', caps, rest)" and p: "pre = c # pre'"
      by auto
    from Cons.IH[OF e] obtain m tl where m: "cs = pre' @ m @ rest" "rematch r (m @ rest) = (caps, rest) # tl"
      and n: "\<forall>p < length pre'. rematch r (drop p cs) = []" by blast
    have "\<forall>q < length pre. rematch r (drop q (c # cs)) = []"
    proof (intro allI impI)
      fix q assume "q < length pre"
      then show "rematch r (drop q (c # cs)) = []"
        using Nil n p by (cases q) auto
    qed
    then show ?thesis using m p by auto
  next
    case (Cons a list)
    obtain c1 r1 where a: "a = (c1, r1)" by (cases a)
    with Cons Cons.prems have e: "pre = []" "caps = c1" "rest = r1" by auto
    have "(c1, r1) \<in> set (rematch r (c # cs))" using Cons a by simp
    then obtain m where "c # cs = m @ r1" by (auto dest: rematch_suffix)
    then show ?thesis using e Cons a by auto
  qed
qed

lemma re_exec_None:
  "re_exec r s = None \<longleftrightarrow> (\<forall>p \<le> length s. rematch r (drop p s) = [])"
proof (induction s)
  case Nil
  then show ?case by (auto split: list.splits)
next
  case (Cons c cs)
  show ?case
  proof (cases "rematch r (c # cs)")
    case Nil
    have "(\<forall>p \<le> length (c # cs). rematch r (drop p (c # cs)) = [])
        \<longleftrightarrow> (\<forall>p \<le> length cs. rematch r (drop p cs) = [])"
    proof
      assume a: "\<forall>p \<le> length (c # cs). rematch r (drop p (c # cs)) = []"
      show "\<forall>p \<le> length cs. rematch r (drop p cs) = []"
      proof (intro allI impI)
        fix p assume "p \<le> length cs"
        then show "rematch r (drop p cs) = []" using a[rule_format, of "Suc p"] by simp
      qed
    next
      assume a: "\<forall>p \<le> length cs. rematch r (drop p cs) = []"
      show "\<forall>p \<le> length (c # cs). rematch r (drop p (c # cs)) = []"
      proof (intro allI impI)
        fix p assume "p \<le> length (c # cs)"
        then show "rematch r (drop p (c # cs)) = []" using a Nil by (cases p) auto
      qed
    qed
    then show ?thesis using Nil Cons.IH by simp
  next
    case (Cons a list)
    then have "re_exec r (c # cs) \<noteq> None" by (auto split: prod.splits)
    moreover have "\<not> (\<forall>p \<le> length (c # cs). rematch r (drop p (c # cs)) = [])"
      using Cons by (auto intro: exI[of _ 0])
    ultimately show ?thesis by blast
  qed
qed

lemma re_test_iff:
  "re_test r s \<longleftrightarrow> (\<exists>pre t. s = pre @ t \<and> rematch r t \<noteq> [])"
proof -
  have "re_test r s \<longleftrightarrow> (\<exists>p \<le> length s. rematch r (drop p s) \<noteq> [])"
    unfolding re_test_def re_exec_None by blast
  also have "\<dots> \<longleftrightarrow> (\<exists>pre t. s = pre @ t \<and> rematch r t \<noteq> [])"
  proof
    assume "\<exists>p \<le> length s. rematch r (drop p s) \<noteq> []"
    then obtain p where "rematch r (drop p s) \<noteq> []" by blast
    then show "\<exists>pre t. s = pre @ t \<and> rematch r t \<noteq> []"
      by (intro exI[of _ "take p s"] exI[of _ "drop p s"]) simp
  next
    assume "\<exists>pre t. s = pre @ t \<and> rematch r t \<noteq> []"
    then obtain pre t where "s = pre @ t" "rematch r t \<noteq> []" by blast
    then show "\<exists>p \<le> length s. rematch r (drop p s) \<noteq> []"
      by (intro exI[of _ "length pre"]) simp
  qed
  finally show ?thesis .
qed

lemma set_rematch_Lit: "set (rematch (Lit l) s) = {([]::jsstring list, r) | r. s = l @ r}"
proof -
  have "take (length l) s = l \<longleftrightarrow> (\<exists>r. s = l @ r)"
    by (metis append_eq_conv_conj append_take_drop_id)
  then show ?thesis by (auto simp: append_eq_conv_conj)
qed

lemma set_rematch_Plus:
  "set (rematch (Plus p) s) =
     {([]::jsstring list, r) | r. \<exists>w. s = w @ r \<and> w \<noteq> [] \<and> (\<forall>c \<in> set w. p c)}"
  (is "?L = ?R")
proof (intro equalityI subsetI)
  fix x assume "x \<in> set (rematch (Plus p) s)"
  then obtain k where k: "1 \<le> k" "k \<le> length (takeWhile p s)" and x: "x = ([], drop k s)"
    by auto
  let ?w = "take k s"
  have "?w = take k (takeWhile p s)"
    using k(2) by (metis takeWhile_eq_take take_take min.absorb1 min.commute)
  then have "\<forall>c \<in> set ?w. p c"
    by (metis in_set_takeD set_takeWhileD)
  moreover have "?w \<noteq> []" using k length_takeWhile_le[of p s] by auto
  moreover have "s = ?w @ drop k s" by simp
  ultimately show "x \<in> ?R"
    using x by blast
next
  fix x assume "x \<in> ?R"
  then obtain r w where x: "x = ([], r)" and w: "s = w @ r" "w \<noteq> []" "\<forall>c \<in> set w. p c"
    by blast
  have "takeWhile p s = w @ takeWhile p r" using w by (simp add: takeWhile_append2)
  then have "length w \<le> length (takeWhile p s)" by simp
  moreover have "1 \<le> length w" using w(2) by (cases w) auto
  moreover have "drop (length w) s = r" using w(1) by simp
  ultimately have "length w \<in> set (rev [1 ..< Suc (length (takeWhile p s))])"
    and "x = (\<lambda>k. ([], drop k s)) (length w)"
    using x by auto
  then show "x \<in> set (rematch (Plus p) s)"
    unfolding rematch.simps set_map by (rule image_eqI[rotated])
qed

lemma set_rematch_Seq:
  "set (rematch (Seq a b) s) =
     {(c1 @ c2, r) | c1 c2 s1 r. (c1, s1) \<in> set (rematch a s) \<and> (c2, r) \<in> set (rematch b s1)}"
  by (auto simp: image_iff) force

lemma set_rematch_Opt: "set (rematch (Opt r) s) = set (rematch r s) \<union> {([], s)}"
  by simp

lemma set_rematch_Grp:
  "set (rematch (Grp r) s) = {(take (length s - length s1) s # c, s1) | c s1. (c, s1) \<in> set (rematch r s)}"
  by (auto simp: image_iff)

lemma nonempty_iff_member: "xs \<noteq> [] \<longleftrightarrow> (\<exists>x. x \<in> set xs)"
  by (cases xs) auto

lemma return_null_matches_iff:
  "rematch re_return_null t \<noteq> [] \<longleftrightarrow>
     (\<exists>ws t'. t = lit ''return'' @ ws @ lit ''null'' @ t' \<and> ws \<noteq> [] \<and> (\<forall>c \<in> set ws. is_space c))"
  (is "?L \<longleftrightarrow> ?R")
proof
  assume ?L
  then obtain c r where "(c, r) \<in> set (rematch re_return_null t)"
    by (cases "rematch re_return_null t") auto
  then obtain c1 s1 c2 s2 c3 s3 cr where
    1: "(c1, s1) \<in> set (rematch (Lit (lit ''return'')) t)" and
    2: "(c2, s2) \<in> set (rematch (Plus is_space) s1)" and
    3: "(c3, s3) \<in> set (rematch (Lit (lit ''null'')) s2)"
    unfolding re_return_null_def set_rematch_Seq by blast
  from 1 have t: "t = lit ''return'' @ s1" unfolding set_rematch_Lit by blast
  from 2 obtain ws where ws: "s1 = ws @ s2" "ws \<noteq> []" "\<forall>c \<in> set ws. is_space c"
    unfolding set_rematch_Plus by blast
  from 3 have "s2 = lit ''null'' @ s3" unfolding set_rematch_Lit by blast
  with t ws show ?R by blast
next
  assume ?R
  then obtain ws t' where h: "t = lit ''return'' @ ws @ lit ''null'' @ t'" "ws \<noteq> []"
    "\<forall>c \<in> set ws. is_space c" by blast
  have 1: "([], ws @ lit ''null'' @ t') \<in> set (rematch (Lit (lit ''return'')) t)"
    using h(1) unfolding set_rematch_Lit by blast
  have 2: "([], lit ''null'' @ t') \<in> set (rematch (Plus is_space) (ws @ lit ''null'' @ t'))"
    using h(2,3) unfolding set_rematch_Plus by blast
  have 3: "([], t') \<in> set (rematch (Lit (lit ''null'')) (lit ''null'' @ t'))"
    unfolding set_rematch_Lit by blast
  have 4: "([], t') \<in> set (rematch (Opt (Lit (lit '';''))) t')"
    unfolding set_rematch_Opt by blast
  have 34: "([] @ [], t') \<in> set (rematch (Seq (Lit (lit ''null'')) (Opt (Lit (lit '';'')))) (lit ''null'' @ t'))"
    unfolding set_rematch_Seq using 3 4 by blast
  have 234: "([] @ [] @ [], t') \<in> set (rematch (Seq (Plus is_space) (Seq (Lit (lit ''null'')) (Opt (Lit (lit '';''))))) (ws @ lit ''null'' @ t'))"
    unfolding set_rematch_Seq[of "Plus is_space"] using 2 34 by blast
  have "([] @ [] @ [] @ [], t') \<in> set (rematch re_return_null t)"
    unfolding re_return_null_def set_rematch_Seq[of "Lit (lit ''return'')"] using 1 234 by blast
  then show ?L by auto
qed

lemma return_expr_matches_iff:
  "(caps, rest) \<in> set (rematch re_return_expr t) \<longleftrightarrow>
     (\<exists>ws e. caps = [e] \<and> t = lit ''return'' @ ws @ e @ lit '';'' @ rest
         \<and> ws \<noteq> [] \<and> (\<forall>c \<in> set ws. is_space c) \<and> e \<noteq> [] \<and> (\<forall>c \<in> set e. is_dot c))"
  (is "?L \<longleftrightarrow> ?R")
proof
  assume ?L
  then obtain c1 s1 c2 s2 c3 s3 c4 where
    1: "(c1, s1) \<in> set (rematch (Lit (lit ''return'')) t)" and
    2: "(c2, s2) \<in> set (rematch (Plus is_space) s1)" and
    3: "(c3, s3) \<in> set (rematch (Grp (Plus is_dot)) s2)" and
    4: "(c4, rest) \<in> set (rematch (Lit (lit '';'')) s3)" and
    c: "caps = c1 @ c2 @ c3 @ c4"
    unfolding re_return_expr_def set_rematch_Seq by blast
  from 1 have t: "t = lit ''return'' @ s1" "c1 = []" unfolding set_rematch_Lit by blast+
  from 2 obtain ws where ws: "s1 = ws @ s2" "ws \<noteq> []" "\<forall>c \<in> set ws. is_space c" "c2 = []"
    unfolding set_rematch_Plus by blast
  from 3 obtain e where e: "s2 = e @ s3" "e \<noteq> []" "\<forall>c \<in> set e. is_dot c"
    "c3 = [take (length s2 - length s3) s2]"
    unfolding set_rematch_Grp set_rematch_Plus by blast
  from 4 have r: "s3 = lit '';'' @ rest" "c4 = []" unfolding set_rematch_Lit by blast+
  have "c3 = [e]" using e(1,4) by simp
  with t ws e r c show ?R by auto
next
  assume ?R
  then obtain ws e where h: "caps = [e]" "t = lit ''return'' @ ws @ e @ lit '';'' @ rest"
     "ws \<noteq> []" "\<forall>c \<in> set ws. is_space c" "e \<noteq> []" "\<forall>c \<in> set e. is_dot c"
    by blast
  have 1: "([], ws @ e @ lit '';'' @ rest) \<in> set (rematch (Lit (lit ''return'')) t)"
    using h(2) by (simp del: rematch.simps add: set_rematch_Lit)
  have 2: "([], e @ lit '';'' @ rest) \<in> set (rematch (Plus is_space) (ws @ e @ lit '';'' @ rest))"
    using h(3,4) unfolding set_rematch_Plus by blast
  have "([], lit '';'' @ rest) \<in> set (rematch (Plus is_dot) (e @ lit '';'' @ rest))"
    using h(5,6) unfolding set_rematch_Plus by blast
  then have 3: "([e], lit '';'' @ rest) \<in> set (rematch (Grp (Plus is_dot)) (e @ lit '';'' @ rest))"
    by (simp del: rematch.simps add: set_rematch_Grp)
  have 4: "([], rest) \<in> set (rematch (Lit (lit '';'')) (lit '';'' @ rest))"
    by (simp del: rematch.simps add: set_rematch_Lit)
  have 34: "([e] @ [], rest) \<in> set (rematch (Seq (Grp (Plus is_dot)) (Lit (lit '';''))) (e @ lit '';'' @ rest))"
    unfolding set_rematch_Seq using 3 4 by blast
  have 234: "([] @ [e] @ [], rest) \<in> set (rematch (Seq (Plus is_space) (Seq (Grp (Plus is_dot)) (Lit (lit '';'')))) (ws @ e @ lit '';'' @ rest))"
    unfolding set_rematch_Seq[of "Plus is_space"] using 2 34 by blast
  have "([] @ [] @ [e] @ [], rest) \<in> set (rematch re_return_expr t)"
    unfolding re_return_expr_def set_rematch_Seq[of "Lit (lit ''return'')"] using 1 234 by blast
  then show ?L using h(1) by simp
qed

text \<open>
  The text that replaces a \<^verbatim>\<open>return null\<close> holds no \<^verbatim>\<open>return null\<close>, and none arises
  where it meets the text before it: after the replacement of the leftmost occurrence, any
  further occurrence lies in the text after it.
\<close>

lemma upstream_throw_facts:
  "length upstream_throw = 88"
  "\<forall>(a, b) \<in> set (zip upstream_throw (tl upstream_throw)). \<not> (a = 0x65 \<and> b = 0x74)"
  "upstream_throw ! 86 \<noteq> 0x72" "upstream_throw ! 87 \<noteq> 0x72"
  "\<exists>T'. upstream_throw = 0x74 # 0x68 # T'"
  unfolding upstream_throw_def lit_def by simp_all

lemma no_match_inside_throw:
  assumes q: "q < length upstream_throw"
  shows "rematch re_return_null (drop q upstream_throw @ rest) = []"
proof (rule ccontr)
  assume "rematch re_return_null (drop q upstream_throw @ rest) \<noteq> []"
  then obtain ws t' where "drop q upstream_throw @ rest = lit ''return'' @ ws @ lit ''null'' @ t'"
    unfolding return_null_matches_iff by blast
  then have e: "drop q upstream_throw @ rest = 0x72 # 0x65 # 0x74 # (lit ''urn'' @ ws @ lit ''null'' @ t')"
    by (simp add: lit_def)
  have d: "drop q upstream_throw = upstream_throw ! q # drop (Suc q) upstream_throw" using q by (simp add: Cons_nth_drop_Suc)
  from e d have r: "upstream_throw ! q = 0x72" by simp
  show False
  proof (cases "q + 2 < length upstream_throw")
    case True
    then have d1: "drop (Suc q) upstream_throw = upstream_throw ! (q + 1) # upstream_throw ! (q + 2) # drop (q + 3) upstream_throw"
      by (simp add: Cons_nth_drop_Suc[symmetric] numeral_3_eq_3)
    from e d d1 have "upstream_throw ! (q + 1) = 0x65" "upstream_throw ! (q + 2) = 0x74" by simp_all
    moreover have "(upstream_throw ! (q + 1), upstream_throw ! (q + 2)) \<in> set (zip upstream_throw (tl upstream_throw))"
      using True by (auto simp: in_set_zip nth_tl intro!: exI[of _ "q + 1"])
    ultimately show False using upstream_throw_facts(2) by fastforce
  next
    case False
    then have "q = 86 \<or> q = 87" using q unfolding upstream_throw_facts(1) by arith
    then show False using r upstream_throw_facts(3,4) by auto
  qed
qed

lemma urn_no_t:
  assumes "\<forall>c \<in> set ws. is_space c"
  shows "0x74 \<notin> set (lit ''urn'' @ ws @ lit ''null'')"
proof -
  have "\<not> is_space 0x74" by (simp add: is_space_def)
  then have "0x74 \<notin> set ws" using assms by blast
  then show ?thesis by (simp add: lit_def)
qed

lemma no_match_across_throw:
  assumes old: "\<forall>p < length pre. rematch re_return_null (drop p (pre @ m @ rest)) = []"
    and p: "p < length pre"
  shows "rematch re_return_null (drop p (pre @ upstream_throw @ rest)) = []"
proof (rule ccontr)
  assume "rematch re_return_null (drop p (pre @ upstream_throw @ rest)) \<noteq> []"
  then obtain ws t' where m: "drop p (pre @ upstream_throw @ rest) = lit ''return'' @ ws @ lit ''null'' @ t'"
    and ws: "ws \<noteq> []" "\<forall>c \<in> set ws. is_space c"
    unfolding return_null_matches_iff by blast
  define C where "C = drop p pre"
  define M where "M = lit ''return'' @ ws @ lit ''null''"
  have C: "C \<noteq> []" using p by (simp add: C_def)
  have e: "M @ t' = C @ upstream_throw @ rest" using m p by (simp add: C_def M_def)
  have oldp: "rematch re_return_null (C @ m @ rest) = []"
    using old p by (simp add: C_def)
  from e obtain us where "(M = C @ us \<and> us @ t' = upstream_throw @ rest) \<or> (M @ us = C \<and> t' = us @ upstream_throw @ rest)"
    unfolding append_eq_append_conv2 by blast
  then show False
  proof
    assume "M @ us = C \<and> t' = us @ upstream_throw @ rest"
    then have "C @ m @ rest = lit ''return'' @ ws @ lit ''null'' @ (us @ m @ rest)"
      by (auto simp: M_def)
    then have "rematch re_return_null (C @ m @ rest) \<noteq> []"
      unfolding return_null_matches_iff using ws by blast
    then show False using oldp by simp
  next
    assume a: "M = C @ us \<and> us @ t' = upstream_throw @ rest"
    show False
    proof (cases us)
      case Nil
      with a have "C @ m @ rest = lit ''return'' @ ws @ lit ''null'' @ (m @ rest)"
        by (auto simp: M_def)
      then have "rematch re_return_null (C @ m @ rest) \<noteq> []"
        unfolding return_null_matches_iff using ws by blast
      then show False using oldp by simp
    next
      case (Cons u us')
      obtain T' where T': "upstream_throw = 0x74 # 0x68 # T'" using upstream_throw_facts(5) by blast
      from a Cons have "u # us' @ t' = upstream_throw @ rest" by simp
      then have ut: "u # us' @ t' = 0x74 # 0x68 # T' @ rest" by (simp only: T' append_Cons)
      then have u: "u = 0x74" by simp
      have Mx: "M = 0x72 # 0x65 # 0x74 # (lit ''urn'' @ ws @ lit ''null'')"
        by (simp add: M_def lit_def)
      from C obtain c1 C1 where C1: "C = c1 # C1" by (cases C) auto
      show False
      proof (cases C1)
        case Nil
        with a C1 Mx Cons u show False by simp
      next
        case (Cons c2 C2)
        note C2 = this
        show False
        proof (cases C2)
          case Nil
          with a C1 C2 Mx \<open>us = u # us'\<close> have "us' = lit ''urn'' @ ws @ lit ''null''"
            by simp
          then have "us' = 0x75 # (lit ''rn'' @ ws @ lit ''null'')"
            by (simp add: lit_def)
          with ut show False by simp
        next
          case (Cons c3 C3)
          with a C1 C2 Mx have "lit ''urn'' @ ws @ lit ''null'' = C3 @ us" by simp
          then have "u \<in> set (lit ''urn'' @ ws @ lit ''null'')"
            using \<open>us = u # us'\<close> by (metis in_set_conv_decomp append.assoc)
          then show False using u urn_no_t[OF ws(2)] by simp
        qed
      qed
    qed
  qed
qed

lemma replaced_line_matches_iff:
  assumes old: "\<forall>p < length pre. rematch re_return_null (drop p (pre @ m @ rest)) = []"
  shows "re_test re_return_null (pre @ upstream_throw @ rest) \<longleftrightarrow> re_test re_return_null rest"
proof
  assume "re_test re_return_null rest"
  then obtain a t where "rest = a @ t" "rematch re_return_null t \<noteq> []"
    unfolding re_test_iff by blast
  then have "pre @ upstream_throw @ rest = (pre @ upstream_throw @ a) @ t \<and> rematch re_return_null t \<noteq> []" by simp
  then show "re_test re_return_null (pre @ upstream_throw @ rest)" unfolding re_test_iff by blast
next
  assume "re_test re_return_null (pre @ upstream_throw @ rest)"
  then obtain a t where at: "pre @ upstream_throw @ rest = a @ t" and t: "rematch re_return_null t \<noteq> []"
    unfolding re_test_iff by blast
  let ?p = "length a"
  have dt: "drop ?p (pre @ upstream_throw @ rest) = t" using at by simp
  have 1: "\<not> ?p < length pre" using no_match_across_throw[OF old] dt t by metis
  have 2: "\<not> (?p - length pre < length upstream_throw)"
  proof
    assume q: "?p - length pre < length upstream_throw"
    have d: "drop ?p (pre @ upstream_throw @ rest) = drop (?p - length pre) upstream_throw @ rest"
      using 1 q by simp
    have x: "rematch re_return_null (drop ?p (pre @ upstream_throw @ rest)) \<noteq> []"
      unfolding dt by (rule t)
    have y: "rematch re_return_null (drop ?p (pre @ upstream_throw @ rest)) = []"
      unfolding d by (rule no_match_inside_throw[OF q])
    from x y show False by blast
  qed
  have "drop ?p (pre @ upstream_throw @ rest) = drop (?p - length pre - length upstream_throw) rest"
    using 1 2 by simp
  then have "t = drop (?p - length pre - length upstream_throw) rest" using dt by (simp only:)
  then have "rest = take (?p - length pre - length upstream_throw) rest @ t" by (simp only: append_take_drop_id)
  then show "re_test re_return_null rest" unfolding re_test_iff using t by blast
qed

text \<open>
  The match of \<^verbatim>\<open>/return\s+null;?/\<close> at a position, in closed form: \<^verbatim>\<open>\s+\<close> takes the
  whole run of white space, since \<^verbatim>\<open>null\<close> cannot start with white space, and \<^verbatim>\<open>;?\<close>
  takes the semicolon when there is one.
\<close>

lemma concat_map_Nil: "(\<And>x. x \<in> set xs \<Longrightarrow> f x = []) \<Longrightarrow> concat (map f xs) = []"
  by (induction xs) auto

lemma rematch_Plus_Seq:
  assumes X: "\<And>v. v \<noteq> [] \<Longrightarrow> p (hd v) \<Longrightarrow> rematch X v = []"
  shows "rematch (Seq (Plus p) X) u =
     (if takeWhile p u = [] then [] else rematch X (dropWhile p u))"
proof -
  let ?n = "length (takeWhile p u)"
  let ?G = "\<lambda>k. map (\<lambda>(c2, s2). ([] @ c2, s2)) (rematch X (drop k u))"
  have G: "?G k = rematch X (drop k u)" for k
    by (simp add: case_prod_unfold)
  have e: "rematch (Seq (Plus p) X) u = concat (map ?G (rev [1 ..< Suc ?n]))"
    by (simp add: comp_def)
  show ?thesis
  proof (cases "?n = 0")
    case True
    then show ?thesis by (simp only: e) simp
  next
    case False
    then have "Suc 0 \<le> ?n" by arith
    then have r: "rev [1 ..< Suc ?n] = ?n # rev [1 ..< ?n]" by simp
    have z: "?G k = []" if "k \<in> set (rev [1 ..< ?n])" for k
    proof -
      from that have k: "k < ?n" by simp
      then have kl: "k < length u" using length_takeWhile_le[of p u] by simp
      have "takeWhile p u ! k = u ! k" using k by (rule takeWhile_nth)
      moreover have "takeWhile p u ! k \<in> set (takeWhile p u)" using k by simp
      ultimately have "p (u ! k)" by (metis set_takeWhileD)
      moreover have "hd (drop k u) = u ! k" using kl by (simp add: hd_drop_conv_nth)
      moreover have "drop k u \<noteq> []" using kl by simp
      ultimately have "rematch X (drop k u) = []" using X by simp
      then show ?thesis by simp
    qed
    have "rematch (Seq (Plus p) X) u = ?G ?n @ concat (map ?G (rev [1 ..< ?n]))"
      by (simp only: e r) simp
    also have "concat (map ?G (rev [1 ..< ?n])) = []"
      using z by (rule concat_map_Nil)
    also have "?G ?n @ [] = rematch X (drop ?n u)" by (simp add: G)
    also have "drop ?n u = dropWhile p u" by (simp add: dropWhile_eq_drop)
    finally have "rematch (Seq (Plus p) X) u = rematch X (dropWhile p u)" .
    moreover have "takeWhile p u \<noteq> []" using False by simp
    ultimately show ?thesis by (simp only: if_False)
  qed
qed

lemma rematch_Lit_Seq:
  "rematch (Seq (Lit l) X) t = (if take (length l) t = l then rematch X (drop (length l) t) else [])"
  by (simp add: case_prod_unfold)

lemma rematch_return_null:
  "rematch re_return_null t =
     (if take 6 t = lit ''return'' \<and> takeWhile is_space (drop 6 t) \<noteq> []
         \<and> take 4 (dropWhile is_space (drop 6 t)) = lit ''null''
      then (let w = drop 4 (dropWhile is_space (drop 6 t))
            in (if take 1 w = lit '';'' then [([], drop 1 w)] else []) @ [([], w)])
      else [])"
proof -
  let ?X = "Seq (Lit (lit ''null'')) (Opt (Lit (lit '';'')))"
  have l: "length (lit ''return'') = 6" "length (lit ''null'') = 4" "length (lit '';'') = 1"
    by (simp_all add: lit_def)
  have X: "rematch ?X v = []" if "v \<noteq> []" "is_space (hd v)" for v
  proof -
    from that obtain c v' where v: "v = c # v'" "is_space c" by (cases v) auto
    have "\<not> is_space 0x6E" by (simp add: is_space_def)
    with v have "take 4 v \<noteq> lit ''null''" by (auto simp: lit_def)
    then show ?thesis by (simp add: l)
  qed
  have P: "rematch (Seq (Plus is_space) ?X) u =
     (if takeWhile is_space u = [] then [] else rematch ?X (dropWhile is_space u))" for u
    using X by (rule rematch_Plus_Seq)
  have Xv: "rematch ?X v = (if take 4 v = lit ''null''
       then (if take 1 (drop 4 v) = lit '';'' then [([], drop 1 (drop 4 v))] else []) @ [([], drop 4 v)]
       else [])" for v
    unfolding rematch_Lit_Seq l by (simp add: l)
  have "rematch re_return_null t =
      (if take 6 t = lit ''return'' then rematch (Seq (Plus is_space) ?X) (drop 6 t) else [])"
    unfolding re_return_null_def rematch_Lit_Seq l ..
  then show ?thesis
    unfolding P Xv by (simp add: Let_def del: rematch.simps)
qed

lemma filter_count_update:
  assumes "i < length ls" "P (ls ! i)"
  shows "length (filter P (ls[i := x])) + (if P x then 0 else 1) = length (filter P ls)"
proof -
  have a: "ls = take i ls @ ls ! i # drop (Suc i) ls" using assms(1) by (rule id_take_nth_drop)
  have b: "ls[i := x] = take i ls @ x # drop (Suc i) ls" using assms(1) by (rule upd_conv_take_nth_drop)
  have "length (filter P ls) = length (filter P (take i ls @ ls ! i # drop (Suc i) ls))"
    using a by simp
  then show ?thesis unfolding b using assms(2) by simp
qed

lemma re_exec_return_null:
  assumes "re_exec re_return_null s = Some (pre, caps, rest)"
  shows "caps = []"
    and "\<exists>ws semi. s = pre @ lit ''return'' @ ws @ lit ''null'' @ semi @ rest
           \<and> ws \<noteq> [] \<and> (\<forall>c \<in> set ws. is_space c)
           \<and> (semi = lit '';'' \<or> semi = [] \<and> take 1 rest \<noteq> lit '';'')"
    and "\<forall>p < length pre. rematch re_return_null (drop p s) = []"
proof -
  from re_exec_Some[OF assms] obtain m tl where
    s: "s = pre @ m @ rest" and h: "rematch re_return_null (m @ rest) = (caps, rest) # tl"
    and n: "\<forall>p < length pre. rematch re_return_null (drop p s) = []" by blast
  show "\<forall>p < length pre. rematch re_return_null (drop p s) = []" by (rule n)
  define t where "t = m @ rest"
  let ?t = t
  let ?ws = "takeWhile is_space (drop 6 ?t)"
  let ?w = "drop 4 (dropWhile is_space (drop 6 ?t))"
  note h = h [folded t_def] and s = s [folded t_def]
  from h have c: "take 6 ?t = lit ''return''" "?ws \<noteq> []"
      "take 4 (dropWhile is_space (drop 6 ?t)) = lit ''null''"
    unfolding rematch_return_null by (auto split: if_splits)
  from h c have hd: "(caps, rest) = (if take 1 ?w = lit '';'' then ([], drop 1 ?w) else ([], ?w))"
    unfolding rematch_return_null by (auto simp: Let_def split: if_splits)
  then show "caps = []" by (auto split: if_splits)
  have t1: "?t = take 6 ?t @ drop 6 ?t" by (simp only: append_take_drop_id)
  have t2: "drop 6 ?t = ?ws @ dropWhile is_space (drop 6 ?t)" by (simp only: takeWhile_dropWhile_id)
  have t3: "dropWhile is_space (drop 6 ?t) = take 4 (dropWhile is_space (drop 6 ?t)) @ ?w"
    by (simp only: append_take_drop_id)
  have t: "?t = lit ''return'' @ ?ws @ lit ''null'' @ ?w"
    using t1 t2 t3 c by (metis)
  have sp: "\<forall>c \<in> set ?ws. is_space c" by (auto dest: set_takeWhileD)
  show "\<exists>ws semi. s = pre @ lit ''return'' @ ws @ lit ''null'' @ semi @ rest
           \<and> ws \<noteq> [] \<and> (\<forall>c \<in> set ws. is_space c)
           \<and> (semi = lit '';'' \<or> semi = [] \<and> take 1 rest \<noteq> lit '';'')"
  proof (cases "take 1 ?w = lit '';''")
    case True
    with hd have r: "rest = drop 1 ?w" by simp
    have "?w = take 1 ?w @ drop 1 ?w" by (simp only: append_take_drop_id)
    with True r have "?w = lit '';'' @ rest" by metis
    with t have "s = pre @ lit ''return'' @ ?ws @ lit ''null'' @ lit '';'' @ rest"
      using s by simp
    with c(2) sp show ?thesis by blast
  next
    case False
    with hd have r: "rest = ?w" by simp
    with t have "s = pre @ lit ''return'' @ ?ws @ lit ''null'' @ [] @ rest"
      using s by simp
    moreover have "take 1 rest \<noteq> lit '';''" using False r by metis
    ultimately show ?thesis using c(2) sp by blast
  qed
qed

section \<open>The patterns of the Optional-return transform\<close>

lemma return_stmt_matches_iff:
  "rematch re_return_stmt t \<noteq> [] \<longleftrightarrow>
     (\<exists>ws e rest. t = lit ''return'' @ ws @ e @ lit '';'' @ rest
         \<and> ws \<noteq> [] \<and> (\<forall>c \<in> set ws. is_space c) \<and> e \<noteq> [] \<and> (\<forall>c \<in> set e. is_dot c))"
  (is "?L \<longleftrightarrow> ?R")
proof
  assume ?L
  then obtain c r where "(c, r) \<in> set (rematch re_return_stmt t)"
    by (cases "rematch re_return_stmt t") auto
  then obtain c1 s1 c2 s2 c3 s3 c4 where
    1: "(c1, s1) \<in> set (rematch (Lit (lit ''return'')) t)" and
    2: "(c2, s2) \<in> set (rematch (Plus is_space) s1)" and
    3: "(c3, s3) \<in> set (rematch (Plus is_dot) s2)" and
    4: "(c4, r) \<in> set (rematch (Lit (lit '';'')) s3)"
    unfolding re_return_stmt_def set_rematch_Seq by blast
  from 1 have t: "t = lit ''return'' @ s1" unfolding set_rematch_Lit by blast
  from 2 obtain ws where ws: "s1 = ws @ s2" "ws \<noteq> []" "\<forall>c \<in> set ws. is_space c"
    unfolding set_rematch_Plus by blast
  from 3 obtain e where e: "s2 = e @ s3" "e \<noteq> []" "\<forall>c \<in> set e. is_dot c"
    unfolding set_rematch_Plus by blast
  from 4 have "s3 = lit '';'' @ r" unfolding set_rematch_Lit by blast
  with t ws e show ?R by blast
next
  assume ?R
  then obtain ws e rest where h: "t = lit ''return'' @ ws @ e @ lit '';'' @ rest"
     "ws \<noteq> []" "\<forall>c \<in> set ws. is_space c" "e \<noteq> []" "\<forall>c \<in> set e. is_dot c"
    by blast
  have 1: "([], ws @ e @ lit '';'' @ rest) \<in> set (rematch (Lit (lit ''return'')) t)"
    using h(1) unfolding set_rematch_Lit by blast
  have 2: "([], e @ lit '';'' @ rest) \<in> set (rematch (Plus is_space) (ws @ e @ lit '';'' @ rest))"
    using h(2,3) unfolding set_rematch_Plus by blast
  have 3: "([], lit '';'' @ rest) \<in> set (rematch (Plus is_dot) (e @ lit '';'' @ rest))"
    using h(4,5) unfolding set_rematch_Plus by blast
  have 4: "([], rest) \<in> set (rematch (Lit (lit '';'')) (lit '';'' @ rest))"
    unfolding set_rematch_Lit by blast
  have 34: "([] @ [], rest) \<in> set (rematch (Seq (Plus is_dot) (Lit (lit '';''))) (e @ lit '';'' @ rest))"
    unfolding set_rematch_Seq using 3 4 by blast
  have 234: "([] @ [] @ [], rest) \<in> set (rematch (Seq (Plus is_space) (Seq (Plus is_dot) (Lit (lit '';'')))) (ws @ e @ lit '';'' @ rest))"
    unfolding set_rematch_Seq[of "Plus is_space"] using 2 34 by blast
  have "([] @ [] @ [] @ [], rest) \<in> set (rematch re_return_stmt t)"
    unfolding re_return_stmt_def set_rematch_Seq[of "Lit (lit ''return'')"] using 1 234 by blast
  then show ?L by auto
qed

lemma return_stmt_expr_same: "rematch re_return_stmt t = [] \<longleftrightarrow> rematch re_return_expr t = []"
proof -
  have "rematch re_return_expr t \<noteq> [] \<longleftrightarrow>
     (\<exists>ws e rest. t = lit ''return'' @ ws @ e @ lit '';'' @ rest
         \<and> ws \<noteq> [] \<and> (\<forall>c \<in> set ws. is_space c) \<and> e \<noteq> [] \<and> (\<forall>c \<in> set e. is_dot c))"
  proof -
    have "rematch re_return_expr t \<noteq> [] \<longleftrightarrow> (\<exists>caps rest. (caps, rest) \<in> set (rematch re_return_expr t))"
      unfolding nonempty_iff_member by simp
    then show ?thesis unfolding return_expr_matches_iff by blast
  qed
  then show ?thesis using return_stmt_matches_iff by blast
qed

lemma re_test_return_stmt_iff:
  "re_test re_return_stmt s \<longleftrightarrow>
     (\<exists>pre ws e rest. s = pre @ lit ''return'' @ ws @ e @ lit '';'' @ rest
         \<and> ws \<noteq> [] \<and> (\<forall>c \<in> set ws. is_space c) \<and> e \<noteq> [] \<and> (\<forall>c \<in> set e. is_dot c))"
  unfolding re_test_iff return_stmt_matches_iff by blast

lemma re_test_optional_dot_iff:
  "re_test re_optional_dot s \<longleftrightarrow> (\<exists>a b. s = a @ lit ''Optional.'' @ b)"
proof -
  have "rematch re_optional_dot t \<noteq> [] \<longleftrightarrow> (\<exists>b. t = lit ''Optional.'' @ b)" for t
    unfolding nonempty_iff_member re_optional_dot_def set_rematch_Lit by blast
  then show ?thesis unfolding re_test_iff by blast
qed

lemma re_exec_return_expr:
  assumes "re_test re_return_stmt s"
  shows "\<exists>pre ws e rest. re_exec re_return_expr s = Some (pre, [e], rest)
           \<and> s = pre @ lit ''return'' @ ws @ e @ lit '';'' @ rest
           \<and> ws \<noteq> [] \<and> (\<forall>c \<in> set ws. is_space c) \<and> e \<noteq> [] \<and> (\<forall>c \<in> set e. is_dot c)
           \<and> (\<forall>p < length pre. rematch re_return_stmt (drop p s) = [])"
proof -
  from assms have "re_exec re_return_expr s \<noteq> None"
    unfolding re_test_def re_exec_None return_stmt_expr_same .
  then obtain pre caps rest where e: "re_exec re_return_expr s = Some (pre, caps, rest)"
    by auto
  from re_exec_Some[OF e] obtain m tl where
    s: "s = pre @ m @ rest" and h: "rematch re_return_expr (m @ rest) = (caps, rest) # tl"
    and n: "\<forall>p < length pre. rematch re_return_expr (drop p s) = []" by blast
  from h have "(caps, rest) \<in> set (rematch re_return_expr (m @ rest))" by simp
  then obtain ws ex where w: "caps = [ex]" "m @ rest = lit ''return'' @ ws @ ex @ lit '';'' @ rest"
     "ws \<noteq> []" "\<forall>c \<in> set ws. is_space c" "ex \<noteq> []" "\<forall>c \<in> set ex. is_dot c"
    unfolding return_expr_matches_iff by blast
  have "s = pre @ lit ''return'' @ ws @ ex @ lit '';'' @ rest" using s w(2) by simp
  moreover have "\<forall>p < length pre. rematch re_return_stmt (drop p s) = []"
    using n unfolding return_stmt_expr_same .
  ultimately show ?thesis using e w by blast
qed

section \<open>Occurrences of a text in a line\<close>

text \<open>
  Where a text can occur in a line put together from parts: a character that the text
  does not hold separates the occurrences before it from those after it, and leading white
  space holds no occurrence of a text that starts with another character. An occurrence in
  an escaped line of a text of five characters or more without \<^verbatim>\<open>&\<close> and \<^verbatim>\<open>;\<close>
  comes from an occurrence in the line: it is too long to lie inside \<^verbatim>\<open>&amp;\<close> or
  \<^verbatim>\<open>&lt;\<close>.
\<close>

lemma occurs_iff: "occurs w s \<longleftrightarrow> (\<exists>a b. s = a @ w @ b)"
proof -
  have "rematch (Lit w) t \<noteq> [] \<longleftrightarrow> (\<exists>b. t = w @ b)" for t
    unfolding nonempty_iff_member set_rematch_Lit by blast
  then show ?thesis unfolding occurs_def re_test_iff by blast
qed

lemma occurs_appendI1: "occurs w x \<Longrightarrow> occurs w (x @ y)"
  unfolding occurs_iff by (metis append.assoc)

lemma occurs_appendI2: "occurs w y \<Longrightarrow> occurs w (x @ y)"
  unfolding occurs_iff by (metis append.assoc)

lemma sep_split:
  assumes c: "c \<notin> set w" and e: "x @ c # y = a @ w @ b"
  shows "(\<exists>b1. x = a @ w @ b1 \<and> b = b1 @ c # y) \<or> (\<exists>a2. y = a2 @ w @ b \<and> a = x @ c # a2)"
proof -
  from e obtain us where "(x = a @ us \<and> us @ c # y = w @ b) \<or> (x @ us = a \<and> c # y = us @ w @ b)"
    unfolding append_eq_append_conv2 by blast
  then show ?thesis
  proof
    assume h: "x @ us = a \<and> c # y = us @ w @ b"
    show ?thesis
    proof (cases us)
      case Nil
      with h have "c # y = w @ b" "a = x" by simp_all
      with c have "w = []" by (cases w) auto
      with \<open>c # y = w @ b\<close> \<open>a = x\<close> show ?thesis by simp
    next
      case (Cons u us')
      with h show ?thesis by auto
    qed
  next
    assume h: "x = a @ us \<and> us @ c # y = w @ b"
    then obtain vs where "(us = w @ vs \<and> vs @ c # y = b) \<or> (us @ vs = w \<and> c # y = vs @ b)"
      unfolding append_eq_append_conv2 by blast
    then show ?thesis
    proof
      assume "us = w @ vs \<and> vs @ c # y = b"
      with h show ?thesis by auto
    next
      assume g: "us @ vs = w \<and> c # y = vs @ b"
      show ?thesis
      proof (cases vs)
        case Nil
        with g h show ?thesis by auto
      next
        case (Cons v vs')
        with g have "c \<in> set w" by auto
        with c show ?thesis by simp
      qed
    qed
  qed
qed

lemma sep_occurs:
  assumes "c \<notin> set w" "occurs w (x @ c # y)"
  shows "occurs w x \<or> occurs w y"
proof -
  from assms(2) obtain a b where "x @ c # y = a @ w @ b" unfolding occurs_iff by blast
  from sep_split[OF assms(1) this] show ?thesis unfolding occurs_iff by blast
qed

lemma ws_split:
  assumes ws: "\<forall>c \<in> set ws. is_space c" and w: "w \<noteq> []" "\<not> is_space (hd w)"
    and e: "ws @ s = a @ w @ b"
  shows "\<exists>a1. a = ws @ a1 \<and> s = a1 @ w @ b"
proof -
  from e obtain us where "(ws = a @ us \<and> us @ s = w @ b) \<or> (ws @ us = a \<and> s = us @ w @ b)"
    unfolding append_eq_append_conv2 by blast
  then show ?thesis
  proof
    assume "ws @ us = a \<and> s = us @ w @ b"
    then show ?thesis by auto
  next
    assume h: "ws = a @ us \<and> us @ s = w @ b"
    show ?thesis
    proof (cases us)
      case Nil
      with h show ?thesis by auto
    next
      case (Cons u us')
      with h w(1) have "u = hd w" by (cases w) auto
      moreover have "u \<in> set ws" using h Cons by simp
      ultimately show ?thesis using ws w(2) by blast
    qed
  qed
qed

lemma ws_occurs:
  assumes "\<forall>c \<in> set ws. is_space c" "w \<noteq> []" "\<not> is_space (hd w)" "occurs w (ws @ s)"
  shows "occurs w s"
proof -
  from assms(4) obtain a b where "ws @ s = a @ w @ b" unfolding occurs_iff by blast
  from ws_split[OF assms(1-3) this] show ?thesis unfolding occurs_iff by blast
qed

lemma esc_Cons:
  "esc (c # s) = (if c = 0x26 then lit ''&amp;'' else if c = 0x3C then lit ''&lt;'' else [c]) @ esc s"
  by (simp add: esc_def lit_def)

lemma esc_append: "esc (a @ b) = esc a @ esc b"
  by (simp add: esc_def)

lemma esc_Nil: "esc [] = []"
  by (simp add: esc_def)

lemma esc_prefix:
  "esc s = w @ v \<Longrightarrow> 0x26 \<notin> set w \<Longrightarrow> \<exists>b. s = w @ b \<and> esc b = v"
proof (induction w arbitrary: s)
  case Nil
  then show ?case by simp
next
  case (Cons x w)
  show ?case
  proof (cases s)
    case Nil
    with Cons.prems show ?thesis by (simp add: esc_Nil)
  next
    case (Cons c s')
    from Cons.prems(1) have e: "(if c = 0x26 then lit ''&amp;'' else if c = 0x3C then lit ''&lt;'' else [c]) @ esc s' = x # w @ v"
      unfolding Cons esc_Cons by simp
    have c: "c \<noteq> 0x26 \<and> c \<noteq> 0x3C"
      using e Cons.prems(2) by (auto simp: lit_def split: if_splits)
    with e have "c = x" "esc s' = w @ v" by simp_all
    from Cons.IH[OF this(2)] Cons.prems(2) obtain b where "s' = w @ b" "esc b = v" by auto
    then show ?thesis using Cons \<open>c = x\<close> by simp
  qed
qed

lemma chunk_skip:
  assumes e: "k @ t = u @ w @ v" and w: "k ! 0 \<notin> set w" "last k \<notin> set w" "length k \<le> length w"
    and k: "k \<noteq> []"
  shows "\<exists>u'. u = k @ u' \<and> t = u' @ w @ v"
proof -
  have "length k \<le> length u"
  proof (rule ccontr)
    assume "\<not> length k \<le> length u"
    then have lu: "length u < length k" by simp
    have n: "(u @ w @ v) ! (length k - 1) = last k"
      using k e[symmetric] by (simp add: nth_append last_conv_nth)
    have z: "(u @ w @ v) ! 0 = k ! 0"
      using k e[symmetric] by (simp add: nth_append)
    show False
    proof (cases u)
      case Nil
      have "w \<noteq> []" using w(3) k by auto
      with Nil z have "w ! 0 = k ! 0" by (simp add: nth_append)
      then have "k ! 0 \<in> set w" using \<open>w \<noteq> []\<close> by (metis length_greater_0_conv nth_mem)
      with w(1) show False by simp
    next
      case (Cons a u')
      have "length k - 1 - length u < length w" using lu w(3) Cons by simp
      moreover have "length u \<le> length k - 1" using lu by simp
      ultimately have "(u @ w @ v) ! (length k - 1) = w ! (length k - 1 - length u)"
        by (simp add: nth_append)
      then have "last k \<in> set w" using n \<open>length k - 1 - length u < length w\<close> by (metis nth_mem)
      with w(2) show False by simp
    qed
  qed
  with e show ?thesis
    by (metis append_eq_append_conv_if append_take_drop_id)
qed

lemma esc_occurrence:
  "esc s = u @ w @ v \<Longrightarrow> 0x26 \<notin> set w \<Longrightarrow> 0x3B \<notin> set w \<Longrightarrow> 5 \<le> length w \<Longrightarrow>
     \<exists>a b. s = a @ w @ b \<and> esc a = u \<and> esc b = v"
proof (induction s arbitrary: u)
  case Nil
  then show ?case by (simp add: esc_Nil)
next
  case (Cons c s)
  let ?k = "if c = 0x26 then lit ''&amp;'' else if c = 0x3C then lit ''&lt;'' else [c]"
  from Cons.prems(1) have e: "?k @ esc s = u @ w @ v" unfolding esc_Cons .
  show ?case
  proof (cases "c = 0x26 \<or> c = 0x3C")
    case True
    then have k: "?k ! 0 = 0x26" "last ?k = 0x3B" "length ?k \<le> 5" "?k \<noteq> []"
      by (auto simp: lit_def)
    have "\<exists>u'. u = ?k @ u' \<and> esc s = u' @ w @ v"
      apply (rule chunk_skip[OF e])
      using k Cons.prems by simp_all
    then obtain u' where u': "u = ?k @ u'" "esc s = u' @ w @ v" by blast
    from Cons.IH[OF u'(2) Cons.prems(2,3,4)] obtain a b where "s = a @ w @ b" "esc a = u'" "esc b = v"
      by blast
    then have "c # s = (c # a) @ w @ b \<and> esc (c # a) = u \<and> esc b = v"
      using u'(1) by (simp add: esc_Cons)
    then show ?thesis by blast
  next
    case False
    then have e': "c # esc s = u @ w @ v" using e by simp
    show ?thesis
    proof (cases u)
      case Nil
      with e' obtain w' where w': "w = c # w'" "esc s = w' @ v"
        using Cons.prems(4) by (cases w) auto
      from esc_prefix[OF w'(2)] Cons.prems(2) w'(1) obtain b where "s = w' @ b" "esc b = v" by auto
      then have "c # s = [] @ w @ b \<and> esc [] = u \<and> esc b = v"
        using w'(1) Nil by (simp add: esc_Nil)
      then show ?thesis by blast
    next
      case (Cons x u')
      with e' have "x = c" "esc s = u' @ w @ v" by simp_all
      from Cons.IH[OF this(2) Cons.prems(2,3,4)] obtain a b where "s = a @ w @ b" "esc a = u'" "esc b = v"
        by blast
      then have "c # s = (c # a) @ w @ b \<and> esc (c # a) = u \<and> esc b = v"
        using Cons \<open>x = c\<close> False by (simp add: esc_Cons)
      then show ?thesis by blast
    qed
  qed
qed

lemma trim_decomp:
  "\<exists>l r. s = l @ trim s @ r \<and> (\<forall>c \<in> set l. is_space c) \<and> (\<forall>c \<in> set r. is_space c)"
proof -
  let ?d = "dropWhile is_space s"
  have 1: "s = takeWhile is_space s @ ?d" by simp
  have "rev (takeWhile is_space (rev ?d) @ dropWhile is_space (rev ?d)) = rev (rev ?d)"
    by (simp only: takeWhile_dropWhile_id)
  then have "rev (dropWhile is_space (rev ?d)) @ rev (takeWhile is_space (rev ?d)) = ?d"
    by (simp only: rev_append rev_rev_ident)
  then have 2: "?d = trim s @ rev (takeWhile is_space (rev ?d))"
    by (simp only: trim_def)
  have "s = takeWhile is_space s @ trim s @ rev (takeWhile is_space (rev ?d))"
    using 1 2 by metis
  moreover have "\<forall>c \<in> set (takeWhile is_space s). is_space c" by (auto dest: set_takeWhileD)
  moreover have "\<forall>c \<in> set (rev (takeWhile is_space (rev ?d))). is_space c"
    by (auto dest: set_takeWhileD)
  ultimately show ?thesis by blast
qed

section \<open>Well-formed lines are kept\<close>

text \<open>
  The word \<^verbatim>\<open>return\<close> does not overlap itself, so that a line holds it at most once when
  the text before one occurrence and the text after it hold none.
\<close>

lemma occurs_snoc:
  assumes "occurs w (x @ [c])" "w \<noteq> []" "last w \<noteq> c"
  shows "occurs w x"
proof -
  from assms(1) obtain a b where e: "x @ [c] = a @ w @ b" unfolding occurs_iff by blast
  show ?thesis
  proof (cases b rule: rev_cases)
    case Nil
    with e have "x @ [c] = a @ w" by simp
    then have "last (a @ w) = c" by (metis last_snoc)
    with assms(2,3) show ?thesis by simp
  next
    case (snoc b' c')
    with e have "x @ [c] = (a @ w @ b') @ [c']" by simp
    then have "x = a @ w @ b'" by (simp only: append1_eq_conv)
    then show ?thesis unfolding occurs_iff by blast
  qed
qed

lemma return_chars:
  "lit ''return'' \<noteq> []" "\<not> is_space (hd (lit ''return''))" "length (lit ''return'') = 6"
  "0x26 \<notin> set (lit ''return'')" "0x3B \<notin> set (lit ''return'')" "0x68 \<notin> set (lit ''return'')"
  "0x28 \<notin> set (lit ''return'')" "0x29 \<notin> set (lit ''return'')" "last (lit ''return'') \<noteq> 0x74"
  by (simp_all add: lit_def is_space_def)

lemma optional_chars:
  "lit ''Optional.'' \<noteq> []" "\<not> is_space (hd (lit ''Optional.''))" "length (lit ''Optional.'') = 9"
  "0x26 \<notin> set (lit ''Optional.'')" "0x3B \<notin> set (lit ''Optional.'')" "0x68 \<notin> set (lit ''Optional.'')"
  "0x28 \<notin> set (lit ''Optional.'')" "0x29 \<notin> set (lit ''Optional.'')" "last (lit ''Optional.'') \<noteq> 0x74"
  "0x72 \<notin> set (lit ''Optional.'')" "0x20 \<notin> set (lit ''Optional.'')"
  "lit ''Optional.'' = 0x4F # lit ''ptional.''" "0x4F \<notin> set (lit ''ptional.'')"
  by (simp_all add: lit_def is_space_def)

lemma return_no_overlap:
  assumes e: "a @ lit ''return'' @ b = c @ lit ''return'' @ d" and l: "length a < length c"
  shows "\<exists>m. c = a @ lit ''return'' @ m"
proof -
  from e obtain us where "(a = c @ us \<and> us @ lit ''return'' @ b = lit ''return'' @ d)
       \<or> (a @ us = c \<and> lit ''return'' @ b = us @ lit ''return'' @ d)"
    unfolding append_eq_append_conv2 by blast
  with l have c: "c = a @ us" and r: "lit ''return'' @ b = us @ lit ''return'' @ d" by auto
  from r obtain vs where "(lit ''return'' = us @ vs \<and> vs @ b = lit ''return'' @ d)
       \<or> (lit ''return'' @ vs = us \<and> b = vs @ lit ''return'' @ d)"
    unfolding append_eq_append_conv2 by blast
  then show ?thesis
  proof
    assume "lit ''return'' @ vs = us \<and> b = vs @ lit ''return'' @ d"
    with c show ?thesis by auto
  next
    assume h: "lit ''return'' = us @ vs \<and> vs @ b = lit ''return'' @ d"
    show ?thesis
    proof (cases vs)
      case Nil
      with h c show ?thesis by auto
    next
      case (Cons v vs')
      with h have v: "v = 0x72" by (simp add: lit_def)
      have us: "us \<noteq> []" using c l by auto
      from h Cons v have "[0x72, 0x65, 0x74, 0x75, 0x72, 0x6E] = us @ 0x72 # vs'"
        by (simp add: lit_def)
      with us have "vs' = [0x6E]"
        by (auto simp: append_eq_Cons_conv Cons_eq_append_conv)
      with h Cons v show ?thesis by (simp add: lit_def)
    qed
  qed
qed

lemma one_return_plain: "\<not> occurs (lit ''return'') l \<Longrightarrow> one_return l"
  unfolding one_return_def occurs_iff by blast

lemma one_returnD:
  assumes "one_return (pre @ lit ''return'' @ t)"
  shows "\<not> occurs (lit ''return'') pre" "\<not> occurs (lit ''return'') t"
proof -
  show "\<not> occurs (lit ''return'') pre"
  proof
    assume "occurs (lit ''return'') pre"
    then obtain a b where "pre = a @ lit ''return'' @ b" unfolding occurs_iff by blast
    then have "pre @ lit ''return'' @ t = a @ lit ''return'' @ b @ lit ''return'' @ t" by simp
    with assms show False unfolding one_return_def by blast
  qed
  show "\<not> occurs (lit ''return'') t"
  proof
    assume "occurs (lit ''return'') t"
    then obtain a b where "t = a @ lit ''return'' @ b" unfolding occurs_iff by blast
    then have "pre @ lit ''return'' @ t = pre @ lit ''return'' @ a @ lit ''return'' @ b" by simp
    with assms show False unfolding one_return_def by blast
  qed
qed

lemma one_returnI:
  assumes p: "\<not> occurs (lit ''return'') pre" and t: "\<not> occurs (lit ''return'') t"
  shows "one_return (pre @ lit ''return'' @ t)"
  unfolding one_return_def
proof
  assume "\<exists>a b c. pre @ lit ''return'' @ t = a @ lit ''return'' @ b @ lit ''return'' @ c"
  then obtain a b c where e: "pre @ lit ''return'' @ t = a @ lit ''return'' @ (b @ lit ''return'' @ c)"
    by auto
  consider "length a < length pre" | "length a = length pre" | "length pre < length a"
    by arith
  then show False
  proof cases
    case 1
    from return_no_overlap[OF e[symmetric] 1] obtain m where "pre = a @ lit ''return'' @ m" by blast
    then have "occurs (lit ''return'') pre" unfolding occurs_iff by blast
    with p show False by simp
  next
    case 2
    with e have "t = b @ lit ''return'' @ c" by simp
    then have "occurs (lit ''return'') t" unfolding occurs_iff by blast
    with t show False by simp
  next
    case 3
    from return_no_overlap[OF e 3] obtain m where "a = pre @ lit ''return'' @ m" by blast
    with e have "t = m @ lit ''return'' @ (b @ lit ''return'' @ c)" by simp
    then have "occurs (lit ''return'') t" unfolding occurs_iff by blast
    with t show False by simp
  qed
qed

lemma one_return_unique:
  assumes o: "one_return l" and 1: "l = p1 @ lit ''return'' @ x" and 2: "l = p2 @ lit ''return'' @ y"
  shows "p1 = p2 \<and> x = y"
proof -
  have e: "p1 @ lit ''return'' @ x = p2 @ lit ''return'' @ y" using 1 2 by simp
  consider "length p1 < length p2" | "length p1 = length p2" | "length p2 < length p1"
    by arith
  then show ?thesis
  proof cases
    case 1
    from return_no_overlap[OF e 1] obtain m where "p2 = p1 @ lit ''return'' @ m" by blast
    with 2 have "l = p1 @ lit ''return'' @ m @ lit ''return'' @ y" by simp
    with o show ?thesis unfolding one_return_def by blast
  next
    case 2
    with e show ?thesis by simp
  next
    case 3
    from return_no_overlap[OF e[symmetric] 3] obtain m where "p1 = p2 @ lit ''return'' @ m" by blast
    with 1 have "l = p2 @ lit ''return'' @ m @ lit ''return'' @ x" by simp
    with o show ?thesis unfolding one_return_def by blast
  qed
qed

lemma optional_after_return_plain: "\<not> occurs (lit ''Optional.'') l \<Longrightarrow> optional_after_return l"
  unfolding optional_after_return_def occurs_iff by blast

lemma optional_after_return_single:
  assumes l: "l = x @ lit ''return '' @ lit ''Optional.'' @ y"
    and x: "0x4F \<notin> set x" and y: "0x4F \<notin> set y"
  shows "optional_after_return l"
  unfolding optional_after_return_def
proof (intro allI impI)
  fix a b assume "l = a @ lit ''Optional.'' @ b"
  with l have "(x @ lit ''return '') @ 0x4F # (lit ''ptional.'' @ y) = a @ 0x4F # (lit ''ptional.'' @ b)"
    by (simp add: optional_chars(12))
  moreover have "0x4F \<notin> set (x @ lit ''return '')" using x by (simp add: lit_def)
  moreover have "0x4F \<notin> set (lit ''ptional.'' @ y)" using y optional_chars(13) by simp
  ultimately have "x @ lit ''return '' = a" by (metis append_Cons_eq_iff)
  then show "\<exists>a'. a = a' @ lit ''return ''" by blast
qed

lemma line_ok_plain:
  "\<not> occurs (lit ''return'') l \<Longrightarrow> \<not> occurs (lit ''Optional.'') l \<Longrightarrow> line_ok l"
  unfolding line_ok_def by (simp add: one_return_plain optional_after_return_plain)

lemma suffix_return_sp:
  assumes e: "x @ a3 = a' @ lit ''return ''" and x: "x \<noteq> []" "last x \<notin> set (lit ''return '')"
  shows "\<exists>us. a3 = us @ lit ''return ''"
proof -
  from e obtain us where "(x = a' @ us \<and> us @ a3 = lit ''return '') \<or> (x @ us = a' \<and> a3 = us @ lit ''return '')"
    unfolding append_eq_append_conv2 by blast
  then show ?thesis
  proof
    assume "x @ us = a' \<and> a3 = us @ lit ''return ''"
    then show ?thesis by blast
  next
    assume h: "x = a' @ us \<and> us @ a3 = lit ''return ''"
    show ?thesis
    proof (cases "us = []")
      case True
      with h have "a3 = [] @ lit ''return ''" by simp
      then show ?thesis by blast
    next
      case False
      with h have "last x = last us" by simp
      moreover have "last us \<in> set us" using False by simp
      moreover have "set us \<subseteq> set (lit ''return '')" using h by (metis set_append Un_upper1)
      ultimately show ?thesis using x(2) by auto
    qed
  qed
qed

lemma ws_suffix_return_sp:
  assumes e: "l @ a2 = a' @ lit ''return ''" and l: "\<forall>c \<in> set l. is_space c"
  shows "\<exists>us. a2 = us @ lit ''return ''"
proof -
  from e obtain us where "(l = a' @ us \<and> us @ a2 = lit ''return '') \<or> (l @ us = a' \<and> a2 = us @ lit ''return '')"
    unfolding append_eq_append_conv2 by blast
  then show ?thesis
  proof
    assume "l @ us = a' \<and> a2 = us @ lit ''return ''"
    then show ?thesis by blast
  next
    assume h: "l = a' @ us \<and> us @ a2 = lit ''return ''"
    show ?thesis
    proof (cases us)
      case Nil
      with h have "a2 = [] @ lit ''return ''" by simp
      then show ?thesis by blast
    next
      case (Cons u us')
      with h have "u = 0x72" by (simp add: lit_def)
      moreover have "u \<in> set l" using h Cons by simp
      moreover have "\<not> is_space 0x72" by (simp add: is_space_def)
      ultimately show ?thesis using l by blast
    qed
  qed
qed

text \<open>White space in front of a line.\<close>

lemma line_ok_ws:
  assumes ws: "\<forall>c \<in> set ws. is_space c" and s: "line_ok s"
  shows "line_ok (ws @ s)"
  unfolding line_ok_def
proof
  show "one_return (ws @ s)"
    unfolding one_return_def
  proof
    assume "\<exists>a b c. ws @ s = a @ lit ''return'' @ b @ lit ''return'' @ c"
    then obtain a b c where "ws @ s = a @ lit ''return'' @ (b @ lit ''return'' @ c)" by blast
    from ws_split[OF ws return_chars(1,2) this] obtain a1 where
      "s = a1 @ lit ''return'' @ b @ lit ''return'' @ c" by blast
    with s show False unfolding line_ok_def one_return_def by blast
  qed
  show "optional_after_return (ws @ s)"
    unfolding optional_after_return_def
  proof (intro allI impI)
    fix a b assume "ws @ s = a @ lit ''Optional.'' @ b"
    from ws_split[OF ws optional_chars(1,2) this] obtain a1 where
      a1: "a = ws @ a1" "s = a1 @ lit ''Optional.'' @ b" by blast
    with s obtain a' where "a1 = a' @ lit ''return ''"
      unfolding line_ok_def optional_after_return_def by blast
    with a1 have "a = (ws @ a') @ lit ''return ''" by simp
    then show "\<exists>a'. a = a' @ lit ''return ''" by blast
  qed
qed

text \<open>Trimming and escaping.\<close>

lemma line_ok_trim:
  assumes s: "line_ok s"
  shows "line_ok (trim s)"
proof -
  from trim_decomp obtain l r where d: "s = l @ trim s @ r" and l: "\<forall>c \<in> set l. is_space c"
    by blast
  show ?thesis
    unfolding line_ok_def
  proof
    show "one_return (trim s)"
      unfolding one_return_def
    proof
      assume "\<exists>a b c. trim s = a @ lit ''return'' @ b @ lit ''return'' @ c"
      then obtain a b c where "trim s = a @ lit ''return'' @ b @ lit ''return'' @ c" by blast
      then have "l @ trim s @ r = (l @ a) @ lit ''return'' @ b @ lit ''return'' @ (c @ r)" by simp
      then have "s = (l @ a) @ lit ''return'' @ b @ lit ''return'' @ (c @ r)" using d by simp
      with s show False unfolding line_ok_def one_return_def by blast
    qed
    show "optional_after_return (trim s)"
      unfolding optional_after_return_def
    proof (intro allI impI)
      fix a b assume "trim s = a @ lit ''Optional.'' @ b"
      then have "l @ trim s @ r = (l @ a) @ lit ''Optional.'' @ (b @ r)" by simp
      then have "s = (l @ a) @ lit ''Optional.'' @ (b @ r)" using d by simp
      with s obtain a' where "l @ a = a' @ lit ''return ''"
        unfolding line_ok_def optional_after_return_def by blast
      from ws_suffix_return_sp[OF this l] show "\<exists>a'. a = a' @ lit ''return ''" .
    qed
  qed
qed

lemma line_ok_esc:
  assumes s: "line_ok s"
  shows "line_ok (esc s)"
  unfolding line_ok_def
proof
  have l6: "5 \<le> length (lit ''return'')" by (simp add: lit_def)
  show "one_return (esc s)"
    unfolding one_return_def
  proof
    assume "\<exists>a b c. esc s = a @ lit ''return'' @ b @ lit ''return'' @ c"
    then obtain a b c where e: "esc s = a @ lit ''return'' @ (b @ lit ''return'' @ c)" by blast
    from esc_occurrence[OF e return_chars(4,5) l6] obtain a2 b2 where
      1: "s = a2 @ lit ''return'' @ b2" "esc b2 = b @ lit ''return'' @ c" by blast
    from esc_occurrence[OF 1(2) return_chars(4,5) l6] obtain a3 b3 where
      "b2 = a3 @ lit ''return'' @ b3" by blast
    with 1 have "s = a2 @ lit ''return'' @ a3 @ lit ''return'' @ b3" by simp
    with s show False unfolding line_ok_def one_return_def by blast
  qed
  have l9: "5 \<le> length (lit ''Optional.'')" by (simp add: lit_def)
  have pl: "esc (lit ''return '') = lit ''return ''"
    by (rule esc_plain) (simp_all add: lit_def)
  show "optional_after_return (esc s)"
    unfolding optional_after_return_def
  proof (intro allI impI)
    fix a b assume e: "esc s = a @ lit ''Optional.'' @ b"
    from esc_occurrence[OF e optional_chars(4,5) l9] obtain a2 b2 where
      1: "s = a2 @ lit ''Optional.'' @ b2" "esc a2 = a" by blast
    with s obtain a' where "a2 = a' @ lit ''return ''"
      unfolding line_ok_def optional_after_return_def by blast
    with 1(2) have "a = esc a' @ lit ''return ''" by (simp add: esc_append pl)
    then show "\<exists>a'. a = a' @ lit ''return ''" by blast
  qed
qed

text \<open>The throw statement in the place of a \<^verbatim>\<open>return null\<close>.\<close>

lemma upstream_throw_shape:
  \<open>upstream_throw = 0x74 # 0x68
     # lit ''row new <span contenteditable="true" class="ce">UpstreamUnavailableException</span>()''
     @ [0x3B]\<close>
  by (simp add: upstream_throw_def lit_def)

lemma upstream_throw_plain:
  \<open>\<not> occurs (lit ''return'')
      (lit ''row new <span contenteditable="true" class="ce">UpstreamUnavailableException</span>()'')\<close>
  \<open>\<not> occurs (lit ''Optional.'')
      (lit ''row new <span contenteditable="true" class="ce">UpstreamUnavailableException</span>()'')\<close>
  by (simp_all add: occurs_def re_test_def lit_def)

lemma line_ok_throw:
  assumes ok: "line_ok (pre @ lit ''return'' @ ws @ lit ''null'' @ semi @ rest)"
    and semi: "semi = lit '';'' \<or> semi = []"
  shows "line_ok (pre @ upstream_throw @ rest)"
proof -
  define T2 where \<open>T2 = lit ''row new <span contenteditable="true" class="ce">UpstreamUnavailableException</span>()''\<close>
  have nR: "\<not> occurs (lit ''return'') T2" and nO: "\<not> occurs (lit ''Optional.'') T2"
    unfolding T2_def by (rule upstream_throw_plain)+
  have new: "pre @ upstream_throw @ rest = (pre @ [0x74]) @ 0x68 # (T2 @ 0x3B # rest)"
    unfolding upstream_throw_shape T2_def by simp
  from ok have o1: "one_return (pre @ lit ''return'' @ (ws @ lit ''null'' @ semi @ rest))"
    and o2: "optional_after_return (pre @ lit ''return'' @ ws @ lit ''null'' @ semi @ rest)"
    unfolding line_ok_def by simp_all
  from one_returnD[OF o1] have p: "\<not> occurs (lit ''return'') pre"
    and t: "\<not> occurs (lit ''return'') (ws @ lit ''null'' @ semi @ rest)" by simp_all
  have r: "\<not> occurs (lit ''return'') rest"
    using t by (metis occurs_appendI2)
  have "\<not> occurs (lit ''return'') (pre @ upstream_throw @ rest)"
  proof
    assume "occurs (lit ''return'') (pre @ upstream_throw @ rest)"
    then have "occurs (lit ''return'') ((pre @ [0x74]) @ 0x68 # (T2 @ 0x3B # rest))"
      by (simp only: new)
    from sep_occurs[OF return_chars(6) this]
    show False
    proof
      assume "occurs (lit ''return'') (pre @ [0x74])"
      from occurs_snoc[OF this return_chars(1,9)] p show False by simp
    next
      assume "occurs (lit ''return'') (T2 @ 0x3B # rest)"
      from sep_occurs[OF return_chars(5) this] nR r show False by blast
    qed
  qed
  then have 1: "one_return (pre @ upstream_throw @ rest)" by (rule one_return_plain)
  have 2: "optional_after_return (pre @ upstream_throw @ rest)"
    unfolding optional_after_return_def
  proof (intro allI impI)
    fix a b assume "pre @ upstream_throw @ rest = a @ lit ''Optional.'' @ b"
    then have e: "(pre @ [0x74]) @ 0x68 # (T2 @ 0x3B # rest) = a @ lit ''Optional.'' @ b"
      by (simp only: new)
    from sep_split[OF optional_chars(6) e]
    show "\<exists>a'. a = a' @ lit ''return ''"
    proof
      assume "\<exists>b1. pre @ [0x74] = a @ lit ''Optional.'' @ b1 \<and> b = b1 @ 0x68 # T2 @ 0x3B # rest"
      then obtain b1 where b1: "pre @ [0x74] = a @ lit ''Optional.'' @ b1" by blast
      have "\<exists>b1'. pre = a @ lit ''Optional.'' @ b1'"
      proof (cases b1 rule: rev_cases)
        case Nil
        with b1 have "pre @ [0x74] = a @ lit ''Optional.''" by simp
        then have "last (a @ lit ''Optional.'') = 0x74" by (metis last_snoc)
        with optional_chars(1,9) show ?thesis by simp
      next
        case (snoc b1' c')
        with b1 have "pre @ [0x74] = (a @ lit ''Optional.'' @ b1') @ [c']" by simp
        then have "pre = a @ lit ''Optional.'' @ b1'" by (simp only: append1_eq_conv)
        then show ?thesis by blast
      qed
      then obtain b1' where "pre = a @ lit ''Optional.'' @ b1'" by blast
      then have "pre @ lit ''return'' @ ws @ lit ''null'' @ semi @ rest
           = a @ lit ''Optional.'' @ (b1' @ lit ''return'' @ ws @ lit ''null'' @ semi @ rest)"
        by simp
      with o2 show ?thesis unfolding optional_after_return_def by blast
    next
      assume "\<exists>a2. T2 @ 0x3B # rest = a2 @ lit ''Optional.'' @ b \<and> a = (pre @ [0x74]) @ 0x68 # a2"
      then obtain a2 where a2: "T2 @ 0x3B # rest = a2 @ lit ''Optional.'' @ b"
        "a = (pre @ [0x74]) @ 0x68 # a2" by blast
      from sep_split[OF optional_chars(5) a2(1)]
      show ?thesis
      proof
        assume "\<exists>b1. T2 = a2 @ lit ''Optional.'' @ b1 \<and> b = b1 @ 0x3B # rest"
        then have "occurs (lit ''Optional.'') T2" unfolding occurs_iff by blast
        with nO show ?thesis by simp
      next
        assume "\<exists>a3. rest = a3 @ lit ''Optional.'' @ b \<and> a2 = T2 @ 0x3B # a3"
        then obtain a3 where a3: "rest = a3 @ lit ''Optional.'' @ b" "a2 = T2 @ 0x3B # a3" by blast
        let ?x = "pre @ lit ''return'' @ ws @ lit ''null'' @ semi"
        have "pre @ lit ''return'' @ ws @ lit ''null'' @ semi @ rest = (?x @ a3) @ lit ''Optional.'' @ b"
          using a3(1) by simp
        with o2 obtain a' where a': "?x @ a3 = a' @ lit ''return ''"
          unfolding optional_after_return_def by blast
        have x1: "?x \<noteq> []" by (simp add: lit_def)
        have "last ?x = 0x3B \<or> last ?x = 0x6C" using semi by (auto simp: lit_def)
        then have x2: "last ?x \<notin> set (lit ''return '')" by (auto simp: lit_def)
        from suffix_return_sp[OF a' x1 x2] obtain us where "a3 = us @ lit ''return ''" by blast
        with a2(2) a3(2) have "a = (pre @ [0x74] @ 0x68 # T2 @ 0x3B # us) @ lit ''return ''" by simp
        then show ?thesis by blast
      qed
    qed
  qed
  from 1 2 show ?thesis unfolding line_ok_def by simp
qed

text \<open>The rewritten \<^verbatim>\<open>return\<close> statement.\<close>

lemma line_ok_optional_of:
  assumes ok: "line_ok (pre @ lit ''return'' @ ws @ e @ lit '';'' @ rest)"
    and no: "\<not> occurs (lit ''Optional.'') (pre @ lit ''return'' @ ws @ e @ lit '';'' @ rest)"
  shows "line_ok (pre @ lit ''return Optional.of('' @ e @ lit '');'' @ rest)"
proof -
  have new: "pre @ lit ''return Optional.of('' @ e @ lit '');'' @ rest
      = pre @ lit ''return'' @ (lit '' Optional.of'' @ 0x28 # (e @ 0x29 # ([] @ 0x3B # rest)))"
    by (simp add: lit_def)
  have new2: "pre @ lit ''return Optional.of('' @ e @ lit '');'' @ rest
      = pre @ 0x72 # (lit ''eturn'' @ 0x20 # (lit ''Optional.of'' @ 0x28 # (e @ 0x29 # ([] @ 0x3B # rest))))"
    by (simp add: lit_def)
  from ok have o1: "one_return (pre @ lit ''return'' @ (ws @ e @ lit '';'' @ rest))"
    unfolding line_ok_def by simp
  from one_returnD[OF o1] have p: "\<not> occurs (lit ''return'') pre"
    and t: "\<not> occurs (lit ''return'') (ws @ e @ lit '';'' @ rest)" by simp_all
  have re: "\<not> occurs (lit ''return'') e"
    using t by (metis occurs_appendI1 occurs_appendI2)
  have rr: "\<not> occurs (lit ''return'') rest"
    using t by (metis occurs_appendI2)
  have oe: "\<not> occurs (lit ''Optional.'') e"
    using no by (metis occurs_appendI1 occurs_appendI2)
  have orr: "\<not> occurs (lit ''Optional.'') rest"
    using no by (metis occurs_appendI2)
  have op: "\<not> occurs (lit ''Optional.'') pre"
    using no by (metis occurs_appendI1)
  have n0: "\<not> occurs w []" if "w \<noteq> []" for w :: jsstring
    using that unfolding occurs_iff by simp
  have l1: "\<not> occurs (lit ''return'') (lit '' Optional.of'')"
    by (simp add: occurs_def re_test_def lit_def)
  have l2: "\<not> occurs (lit ''Optional.'') (lit ''eturn'')"
    by (simp add: occurs_def re_test_def lit_def)
  have "\<not> occurs (lit ''return'') (lit '' Optional.of'' @ 0x28 # (e @ 0x29 # ([] @ 0x3B # rest)))"
  proof
    assume "occurs (lit ''return'') (lit '' Optional.of'' @ 0x28 # (e @ 0x29 # ([] @ 0x3B # rest)))"
    from sep_occurs[OF return_chars(7) this] l1
    have "occurs (lit ''return'') (e @ 0x29 # ([] @ 0x3B # rest))" by simp
    from sep_occurs[OF return_chars(8) this] re
    have "occurs (lit ''return'') ([] @ 0x3B # rest)" by simp
    from sep_occurs[OF return_chars(5) this] rr n0[OF return_chars(1)]
    show False by simp
  qed
  with p have 1: "one_return (pre @ lit ''return Optional.of('' @ e @ lit '');'' @ rest)"
    unfolding new by (rule one_returnI)
  have 2: "optional_after_return (pre @ lit ''return Optional.of('' @ e @ lit '');'' @ rest)"
    unfolding optional_after_return_def
  proof (intro allI impI)
    fix a b assume "pre @ lit ''return Optional.of('' @ e @ lit '');'' @ rest = a @ lit ''Optional.'' @ b"
    then have e1: "pre @ 0x72 # (lit ''eturn'' @ 0x20 # (lit ''Optional.of'' @ 0x28 # (e @ 0x29 # ([] @ 0x3B # rest))))
        = a @ lit ''Optional.'' @ b"
      by (simp only: new2)
    from sep_split[OF optional_chars(10) e1] op obtain a2 where
      a2: "lit ''eturn'' @ 0x20 # (lit ''Optional.of'' @ 0x28 # (e @ 0x29 # ([] @ 0x3B # rest))) = a2 @ lit ''Optional.'' @ b"
          "a = pre @ 0x72 # a2"
      unfolding occurs_iff by blast
    from sep_split[OF optional_chars(11) a2(1)] l2 obtain a3 where
      a3: "lit ''Optional.of'' @ 0x28 # (e @ 0x29 # ([] @ 0x3B # rest)) = a3 @ lit ''Optional.'' @ b"
          "a2 = lit ''eturn'' @ 0x20 # a3"
      unfolding occurs_iff by blast
    from sep_split[OF optional_chars(7) a3(1)]
    show "\<exists>a'. a = a' @ lit ''return ''"
    proof
      assume "\<exists>b1. lit ''Optional.of'' = a3 @ lit ''Optional.'' @ b1 \<and> b = b1 @ 0x28 # e @ 0x29 # [] @ 0x3B # rest"
      then obtain b1 where "lit ''Optional.of'' = a3 @ lit ''Optional.'' @ b1" by blast
      then have "[] @ 0x4F # lit ''ptional.of'' = a3 @ 0x4F # (lit ''ptional.'' @ b1)"
        by (simp add: lit_def)
      moreover have "0x4F \<notin> set ([]::jsstring)" "0x4F \<notin> set (lit ''ptional.of'')"
        by (simp_all add: lit_def)
      ultimately have "a3 = []" by (metis append_Cons_eq_iff)
      with a2(2) a3(2) have "a = pre @ lit ''return ''" by (simp add: lit_def)
      then show ?thesis by blast
    next
      assume "\<exists>a4. e @ 0x29 # [] @ 0x3B # rest = a4 @ lit ''Optional.'' @ b \<and> a3 = lit ''Optional.of'' @ 0x28 # a4"
      then have "occurs (lit ''Optional.'') (e @ 0x29 # ([] @ 0x3B # rest))"
        unfolding occurs_iff by auto
      from sep_occurs[OF optional_chars(8) this] oe
      have "occurs (lit ''Optional.'') ([] @ 0x3B # rest)" by simp
      from sep_occurs[OF optional_chars(5) this] orr n0[OF optional_chars(1)]
      show ?thesis by simp
    qed
  qed
  from 1 2 show ?thesis unfolding line_ok_def by simp
qed

text \<open>The lines the transforms write.\<close>

lemma generated_lines_ok:
  assumes ws: "\<forall>c \<in> set ws. is_space c"
  shows \<open>line_ok (ws @ lit ''throw new <span contenteditable="true" class="ce">CustomDomainException</span>();'')\<close>
    and \<open>line_ok (ws @ lit ''try {'')\<close>
    and \<open>line_ok (ws @ lit ''} catch (<span contenteditable="true" class="ce">Exception</span> e) {'')\<close>
    and \<open>line_ok (ws @ lit ''// <span contenteditable="true" class="ce">decide: skip/retry/DLQ/translate</span>'')\<close>
    and \<open>line_ok (ws @ lit ''}'')\<close>
    and \<open>line_ok (ws @ lit ''return Optional.of(<span contenteditable="true" class="ce">value</span>);'')\<close>
proof -
  show \<open>line_ok (ws @ lit ''throw new <span contenteditable="true" class="ce">CustomDomainException</span>();'')\<close>
    by (rule line_ok_ws[OF ws], rule line_ok_plain) (simp_all add: occurs_def re_test_def lit_def)
  show \<open>line_ok (ws @ lit ''try {'')\<close>
    by (rule line_ok_ws[OF ws], rule line_ok_plain) (simp_all add: occurs_def re_test_def lit_def)
  show \<open>line_ok (ws @ lit ''} catch (<span contenteditable="true" class="ce">Exception</span> e) {'')\<close>
    by (rule line_ok_ws[OF ws], rule line_ok_plain) (simp_all add: occurs_def re_test_def lit_def)
  show \<open>line_ok (ws @ lit ''// <span contenteditable="true" class="ce">decide: skip/retry/DLQ/translate</span>'')\<close>
    by (rule line_ok_ws[OF ws], rule line_ok_plain) (simp_all add: occurs_def re_test_def lit_def)
  show \<open>line_ok (ws @ lit ''}'')\<close>
    by (rule line_ok_ws[OF ws], rule line_ok_plain) (simp_all add: occurs_def re_test_def lit_def)
  have s: \<open>lit ''return Optional.of(<span contenteditable="true" class="ce">value</span>);''
       = [] @ lit ''return'' @ lit '' Optional.of(<span contenteditable="true" class="ce">value</span>);''\<close>
       \<open>lit ''return Optional.of(<span contenteditable="true" class="ce">value</span>);''
       = [] @ lit ''return '' @ lit ''Optional.'' @ lit ''of(<span contenteditable="true" class="ce">value</span>);''\<close>
    by (simp_all add: lit_def)
  have 1: \<open>one_return (lit ''return Optional.of(<span contenteditable="true" class="ce">value</span>);'')\<close>
    unfolding s(1)
    by (rule one_returnI) (simp_all add: occurs_def re_test_def lit_def)
  have 2: \<open>optional_after_return (lit ''return Optional.of(<span contenteditable="true" class="ce">value</span>);'')\<close>
    by (rule optional_after_return_single[OF s(2)]) (simp_all add: lit_def)
  show \<open>line_ok (ws @ lit ''return Optional.of(<span contenteditable="true" class="ce">value</span>);'')\<close>
    by (rule line_ok_ws[OF ws]) (simp add: line_ok_def 1 2)
qed

text \<open>The lines of the templates.\<close>

lemma template_lines_ok: "s \<in> set STAGES \<Longrightarrow> l \<in> set (snippet s) \<Longrightarrow> line_ok l"
proof -
  have p1: \<open>line_ok (lit ''for (Record record : stream) {'')\<close>
    by (rule line_ok_plain) (simp_all add: occurs_def re_test_def lit_def)
  have p2: \<open>line_ok (lit ''    processMessage(record); // may call networkCall()'')\<close>
    by (rule line_ok_plain) (simp_all add: occurs_def re_test_def lit_def)
  have p3: \<open>line_ok (lit ''}'')\<close>
    by (rule line_ok_plain) (simp_all add: occurs_def re_test_def lit_def)
  have p4: \<open>line_ok (lit ''public Optional<User> findByEmail(String email) {'')\<close>
    by (rule line_ok_plain) (simp_all add: occurs_def re_test_def lit_def)
  have p5: \<open>line_ok (lit ''    // query DB...'')\<close>
    by (rule line_ok_plain) (simp_all add: occurs_def re_test_def lit_def)
  have p6: \<open>line_ok (lit ''@GetMapping("/orders/{id}")'')\<close>
    by (rule line_ok_plain) (simp_all add: occurs_def re_test_def lit_def)
  have p7: \<open>line_ok (lit ''public ResponseEntity<?> get(@PathVariable String id) {'')\<close>
    by (rule line_ok_plain) (simp_all add: occurs_def re_test_def lit_def)
  have p8: \<open>line_ok (lit ''for (String line : lines) {'')\<close>
    by (rule line_ok_plain) (simp_all add: occurs_def re_test_def lit_def)
  have p9: \<open>line_ok (lit ''    Transaction t = parse(line);'')\<close>
    by (rule line_ok_plain) (simp_all add: occurs_def re_test_def lit_def)
  have p10: \<open>line_ok (lit ''    writer.write(t);'')\<close>
    by (rule line_ok_plain) (simp_all add: occurs_def re_test_def lit_def)
  have p11: \<open>line_ok (lit ''Response r = http.get("/partner");'')\<close>
    by (rule line_ok_plain) (simp_all add: occurs_def re_test_def lit_def)
  have p12: \<open>line_ok []\<close>
    by (rule line_ok_plain) (simp_all add: occurs_def re_test_def lit_def)
  have s1: \<open>lit ''    return Optional.empty(); // sometimes; distinguish from DB failure''
      = lit ''    '' @ lit ''return'' @ lit '' Optional.empty(); // sometimes; distinguish from DB failure''\<close>
     \<open>lit ''    return Optional.empty(); // sometimes; distinguish from DB failure''
      = lit ''    '' @ lit ''return '' @ lit ''Optional.'' @ lit ''empty(); // sometimes; distinguish from DB failure''\<close>
    by (simp_all add: lit_def)
  have "one_return (lit ''    return Optional.empty(); // sometimes; distinguish from DB failure'')"
    unfolding s1(1) by (rule one_returnI) (simp_all add: occurs_def re_test_def lit_def)
  moreover have "optional_after_return (lit ''    return Optional.empty(); // sometimes; distinguish from DB failure'')"
    by (rule optional_after_return_single[OF s1(2)]) (simp_all add: lit_def)
  ultimately have r1: "line_ok (lit ''    return Optional.empty(); // sometimes; distinguish from DB failure'')"
    unfolding line_ok_def by simp
  have s2: \<open>lit ''    return ResponseEntity.ok(service.fetch(id));''
      = lit ''    '' @ lit ''return'' @ lit '' ResponseEntity.ok(service.fetch(id));''\<close>
    by (simp add: lit_def)
  have "one_return (lit ''    return ResponseEntity.ok(service.fetch(id));'')"
    unfolding s2 by (rule one_returnI) (simp_all add: occurs_def re_test_def lit_def)
  moreover have "optional_after_return (lit ''    return ResponseEntity.ok(service.fetch(id));'')"
    by (rule optional_after_return_plain) (simp add: occurs_def re_test_def lit_def)
  ultimately have r2: "line_ok (lit ''    return ResponseEntity.ok(service.fetch(id));'')"
    unfolding line_ok_def by simp
  have s3: \<open>lit ''if (r.status() == 200) return r.body();''
      = lit ''if (r.status() == 200) '' @ lit ''return'' @ lit '' r.body();''\<close>
    by (simp add: lit_def)
  have "one_return (lit ''if (r.status() == 200) return r.body();'')"
    unfolding s3 by (rule one_returnI) (simp_all add: occurs_def re_test_def lit_def)
  moreover have "optional_after_return (lit ''if (r.status() == 200) return r.body();'')"
    by (rule optional_after_return_plain) (simp add: occurs_def re_test_def lit_def)
  ultimately have r3: "line_ok (lit ''if (r.status() == 200) return r.body();'')"
    unfolding line_ok_def by simp
  have s4: \<open>lit ''return null; // currently hiding errors''
      = [] @ lit ''return'' @ lit '' null; // currently hiding errors''\<close>
    by (simp add: lit_def)
  have "one_return (lit ''return null; // currently hiding errors'')"
    unfolding s4 by (rule one_returnI) (simp_all add: occurs_def re_test_def lit_def)
  moreover have "optional_after_return (lit ''return null; // currently hiding errors'')"
    by (rule optional_after_return_plain) (simp add: occurs_def re_test_def lit_def)
  ultimately have r4: "line_ok (lit ''return null; // currently hiding errors'')"
    unfolding line_ok_def by simp
  assume "s \<in> set STAGES" "l \<in> set (snippet s)"
  then have \<open>l \<in> {lit ''for (Record record : stream) {'',
      lit ''    processMessage(record); // may call networkCall()'',
      lit ''}'',
      lit ''public Optional<User> findByEmail(String email) {'',
      lit ''    // query DB...'',
      lit ''    return Optional.empty(); // sometimes; distinguish from DB failure'',
      lit ''@GetMapping("/orders/{id}")'',
      lit ''public ResponseEntity<?> get(@PathVariable String id) {'',
      lit ''    return ResponseEntity.ok(service.fetch(id));'',
      lit ''for (String line : lines) {'',
      lit ''    Transaction t = parse(line);'',
      lit ''    writer.write(t);'',
      lit ''Response r = http.get("/partner");'',
      lit ''if (r.status() == 200) return r.body();'',
      lit ''return null; // currently hiding errors'',
      []}\<close>
    unfolding STAGES_def by auto
  then show "line_ok l"
    using p1 p2 p3 p4 p5 p6 p7 p8 p9 p10 p11 p12 r1 r2 r3 r4 by blast
qed

lemma initial_lines_ok: "initial_lines k = Some ls \<Longrightarrow> l \<in> set ls \<Longrightarrow> line_ok l"
proof -
  assume a: "initial_lines k = Some ls" and l: "l \<in> set ls"
  from a have "(k, ls) \<in> set (rev (map (\<lambda>s. (key s, snippet s)) STAGES))"
    unfolding initial_lines_def by (rule map_of_SomeD)
  then obtain s where "s \<in> set STAGES" "ls = snippet s" by auto
  with l show ?thesis by (auto intro: template_lines_ok)
qed

text \<open>The transforms keep the lines well-formed.\<close>

lemma leading_ws_space: "\<forall>c \<in> set (leading_ws s @ lit ''    ''). is_space c"
  "\<forall>c \<in> set (leading_ws s). is_space c"
  unfolding leading_ws_takeWhile
  by (auto simp: lit_def is_space_def dest: set_takeWhileD)

lemma applyThrow_ok:
  assumes ok: "\<forall>l \<in> set ls. line_ok l" and r: "applyThrow ls i = Inr r"
  shows "\<forall>l \<in> set r. line_ok l"
proof (cases "i < length ls")
  case False
  with r show ?thesis by (simp add: applyThrow_def)
next
  case i: True
  then have li: "line_ok (ls ! i)" using ok by simp
  show ?thesis
  proof (cases "re_test re_return_null (ls ! i)")
    case True
    then obtain pre caps rest where e: "re_exec re_return_null (ls ! i) = Some (pre, caps, rest)"
      unfolding re_test_def by auto
    from re_exec_return_null(2)[OF e] obtain ws semi where
      d: "ls ! i = pre @ lit ''return'' @ ws @ lit ''null'' @ semi @ rest"
         "semi = lit '';'' \<or> semi = [] \<and> take 1 rest \<noteq> lit '';''"
      by blast
    from d(2) have "semi = lit '';'' \<or> semi = []" by blast
    with li d(1) have n: "line_ok (pre @ upstream_throw @ rest)"
      by (metis line_ok_throw)
    from r i True e have "r = ls[i := pre @ upstream_throw @ rest]"
      by (simp add: applyThrow_def Let_def re_replace_def)
    then have "set r \<subseteq> insert (pre @ upstream_throw @ rest) (set ls)"
      by (simp add: set_update_subset_insert)
    with ok n show ?thesis by blast
  next
    case False
    define x where \<open>x = (leading_ws (ls ! i) @ lit ''    '')
       @ lit ''throw new <span contenteditable="true" class="ce">CustomDomainException</span>();''\<close>
    have n: "line_ok x" unfolding x_def by (rule generated_lines_ok(1)[OF leading_ws_space(1)])
    from r i False have "r = take (i + 1) ls @ [x] @ drop (i + 1) ls"
      by (simp add: applyThrow_def Let_def x_def)
    then have "set r \<subseteq> insert x (set ls)"
      by (auto dest: in_set_takeD in_set_dropD)
    with ok n show ?thesis by blast
  qed
qed

lemma applyCatch_ok:
  assumes ok: "\<forall>l \<in> set ls. line_ok l" and r: "applyCatch ls i = Inr r"
  shows "\<forall>l \<in> set r. line_ok l"
proof (cases "i < length ls")
  case False
  with r show ?thesis by (simp add: applyCatch_def)
next
  case i: True
  then have li: "line_ok (ls ! i)" using ok by simp
  define w where \<open>w = [leading_ws (ls ! i) @ lit ''try {'',
                (leading_ws (ls ! i) @ lit ''    '') @ esc (trim (ls ! i)),
                leading_ws (ls ! i) @ lit ''} catch (<span contenteditable="true" class="ce">Exception</span> e) {'',
                (leading_ws (ls ! i) @ lit ''    '') @ lit ''// <span contenteditable="true" class="ce">decide: skip/retry/DLQ/translate</span>'',
                leading_ws (ls ! i) @ lit ''}'']\<close>
  have "line_ok ((leading_ws (ls ! i) @ lit ''    '') @ esc (trim (ls ! i)))"
    by (rule line_ok_ws[OF leading_ws_space(1)], rule line_ok_esc, rule line_ok_trim, rule li)
  then have n: "\<forall>l \<in> set w. line_ok l"
    unfolding w_def
    using generated_lines_ok(2,3,5)[OF leading_ws_space(2), of "ls ! i"]
          generated_lines_ok(4)[OF leading_ws_space(1), of "ls ! i"]
    by simp
  from r i have "r = take i ls @ w @ drop (i + 1) ls"
    by (simp add: applyCatch_def Let_def w_def)
  then have "set r \<subseteq> set w \<union> set ls"
    by (auto dest: in_set_takeD in_set_dropD)
  with ok n show ?thesis by blast
qed

lemma applyOptionalOf_ok:
  assumes ok: "\<forall>l \<in> set ls. line_ok l" and r: "applyOptionalOf ls i = Inr r"
  shows "\<forall>l \<in> set r. line_ok l"
proof (cases "i < length ls")
  case False
  with r show ?thesis by (simp add: applyOptionalOf_def)
next
  case i: True
  then have li: "line_ok (ls ! i)" using ok by simp
  show ?thesis
  proof (cases "re_test re_return_stmt (ls ! i) \<and> \<not> re_test re_optional_dot (ls ! i)")
    case True
    then have t: "re_test re_return_stmt (ls ! i)" by simp
    from re_exec_return_expr[OF t] obtain pre ws e rest where
      d: "re_exec re_return_expr (ls ! i) = Some (pre, [e], rest)"
         "ls ! i = pre @ lit ''return'' @ ws @ e @ lit '';'' @ rest"
      by blast
    have no: "\<not> occurs (lit ''Optional.'') (ls ! i)"
      using True by (simp add: occurs_def re_optional_dot_def)
    have n: "line_ok (pre @ lit ''return Optional.of('' @ e @ lit '');'' @ rest)"
      using li no unfolding d(2) by (rule line_ok_optional_of)
    from r i True d(1) have "r = ls[i := pre @ lit ''return Optional.of('' @ e @ lit '');'' @ rest]"
      by (simp add: applyOptionalOf_def Let_def re_replace_def)
    then have "set r \<subseteq> insert (pre @ lit ''return Optional.of('' @ e @ lit '');'' @ rest) (set ls)"
      by (simp add: set_update_subset_insert)
    with ok n show ?thesis by blast
  next
    case False
    define x where \<open>x = (leading_ws (ls ! i) @ lit ''    '')
       @ lit ''return Optional.of(<span contenteditable="true" class="ce">value</span>);''\<close>
    have n: "line_ok x" unfolding x_def by (rule generated_lines_ok(6)[OF leading_ws_space(1)])
    from r i False have "r = take (i + 1) ls @ [x] @ drop (i + 1) ls"
      by (auto simp add: applyOptionalOf_def Let_def x_def)
    then have "set r \<subseteq> insert x (set ls)"
      by (auto dest: in_set_takeD in_set_dropD)
    with ok n show ?thesis by blast
  qed
qed

lemma applyActionAt_ok:
  assumes ok: "lines_ok st" and r: "applyActionAt st actionId idx = Inr st'"
  shows "lines_ok st'"
proof -
  from r have v: "stageIdx st < length STAGES"
    by (auto simp: applyActionAt_def split: if_splits)
  let ?k = "key (STAGES ! stageIdx st)"
  from r v obtain ls where ls: "linesByStage st ?k = Some ls"
    by (auto simp: applyActionAt_def Let_def split: option.splits)
  let ?w = "if actionId = lit ''throw'' then applyThrow ls idx
            else if actionId = lit ''catch'' then applyCatch ls idx
            else if actionId = lit ''opt'' then applyOptionalOf ls idx
            else Inr ls"
  from r v ls obtain working where w: "?w = Inr working"
    and l: "linesByStage st' = (linesByStage st)(?k \<mapsto> working)"
    by (auto simp: applyActionAt_def Let_def split: sum.splits)
  have o: "\<forall>l \<in> set ls. line_ok l" using ok ls unfolding lines_ok_def by blast
  have "\<forall>l \<in> set working. line_ok l"
    using w o applyThrow_ok[OF o] applyCatch_ok[OF o] applyOptionalOf_ok[OF o]
    by (auto split: if_splits)
  with ok l show ?thesis unfolding lines_ok_def by auto
qed

lemma handle_lines_ok:
  assumes ok: "lines_ok st"
  shows "lines_ok (handle st ev)"
proof (cases ev)
  case (Drop actionId idx)
  show ?thesis
  proof (cases "applyActionAt st actionId idx")
    case (Inl e)
    with Drop ok show ?thesis by (simp add: handle_def)
  next
    case (Inr st')
    with Drop have "handle st ev = st'" by (simp add: handle_def)
    with applyActionAt_ok[OF ok Inr] show ?thesis by simp
  qed
next
  case Next
  have "linesByStage (handle st Next) = linesByStage st"
    by (auto simp: handle_def nextStage_def Let_def split: sum.splits if_splits)
  with ok Next show ?thesis unfolding lines_ok_def by simp
next
  case ResetStage
  show ?thesis
  proof (cases "stageIdx st < length STAGES")
    case False
    with ResetStage ok show ?thesis by (simp add: handle_def resetStage_def)
  next
    case True
    then have "linesByStage (handle st ResetStage)
        = (linesByStage st)(key (STAGES ! stageIdx st) \<mapsto> snippet (STAGES ! stageIdx st))"
      by (simp add: handle_def resetStage_def Let_def)
    moreover have "\<forall>l \<in> set (snippet (STAGES ! stageIdx st)). line_ok l"
      using True by (meson nth_mem template_lines_ok)
    ultimately show ?thesis using ok ResetStage unfolding lines_ok_def by auto
  qed
next
  case ResetAll
  have "linesByStage (handle st ResetAll) = initial_lines"
    by (simp add: handle_def resetAll_def)
  with ResetAll show ?thesis unfolding lines_ok_def by (auto intro: initial_lines_ok)
qed

lemma reachable_lines_ok: "reachable st \<Longrightarrow> lines_ok st"
proof (induction rule: reachable.induct)
  case r_init
  show ?case unfolding lines_ok_def initial_state_def by (auto intro: initial_lines_ok)
next
  case (r_step st ev)
  from r_step.IH show ?case by (rule handle_lines_ok)
qed

text \<open>What the invariant gives the two transforms.\<close>

lemma no_second_return_null:
  assumes ok: "line_ok l" and e: "re_exec re_return_null l = Some (pre, caps, rest)"
  shows "\<not> re_test re_return_null rest"
proof
  assume "re_test re_return_null rest"
  then obtain a t where "rest = a @ t" "rematch re_return_null t \<noteq> []"
    unfolding re_test_iff by blast
  then obtain ws' t' where "rest = a @ lit ''return'' @ ws' @ lit ''null'' @ t'"
    unfolding return_null_matches_iff by blast
  then have o: "occurs (lit ''return'') rest" unfolding occurs_iff by blast
  from re_exec_return_null(2)[OF e] obtain ws semi where
    d: "l = pre @ lit ''return'' @ (ws @ lit ''null'' @ semi) @ rest" by auto
  from ok have "one_return l" unfolding line_ok_def by simp
  from one_returnD(2)[OF this[unfolded d]] o show False by (metis occurs_appendI2)
qed

lemma wrapped_expr_iff:
  assumes ok: "line_ok l"
    and d: "l = pre @ lit ''return'' @ ws @ e @ lit '';'' @ rest"
    and ws: "ws \<noteq> []" "\<forall>c \<in> set ws. is_space c"
  shows "re_test re_optional_dot l \<longleftrightarrow> re_test re_optional_dot e"
    and "re_test re_optional_dot e \<longleftrightarrow> take 9 e = lit ''Optional.''"
proof -
  have 1: "take 9 e = lit ''Optional.''" if "re_test re_optional_dot l"
  proof -
    from that obtain a b where ab: "l = a @ lit ''Optional.'' @ b"
      unfolding re_test_optional_dot_iff by blast
    with ok obtain a' where "a = a' @ lit ''return ''"
      unfolding line_ok_def optional_after_return_def by blast
    with ab have l2: "l = a' @ lit ''return'' @ (0x20 # lit ''Optional.'' @ b)" by (simp add: lit_def)
    from ok have "one_return l" unfolding line_ok_def by simp
    from one_return_unique[OF this d l2] have t: "ws @ e @ lit '';'' @ rest = 0x20 # lit ''Optional.'' @ b"
      by simp
    from ws(1) obtain w ws' where w: "ws = w # ws'" by (cases ws) auto
    have "ws' = []"
    proof (cases ws')
      case Nil then show ?thesis .
    next
      case (Cons w2 ws2)
      with t w have "w2 = 0x4F" by (simp add: lit_def)
      moreover have "is_space w2" using ws(2) w Cons by simp
      ultimately show ?thesis by (simp add: is_space_def)
    qed
    with t w have "e @ lit '';'' @ rest = lit ''Optional.'' @ b" by simp
    then obtain us where "(e = lit ''Optional.'' @ us \<and> us @ lit '';'' @ rest = b)
        \<or> (e @ us = lit ''Optional.'' \<and> lit '';'' @ rest = us @ b)"
      unfolding append_eq_append_conv2 by blast
    then show ?thesis
    proof
      assume "e = lit ''Optional.'' @ us \<and> us @ lit '';'' @ rest = b"
      then show ?thesis by (simp add: lit_def)
    next
      assume h: "e @ us = lit ''Optional.'' \<and> lit '';'' @ rest = us @ b"
      show ?thesis
      proof (cases us)
        case Nil
        with h show ?thesis by (simp add: lit_def)
      next
        case (Cons u us')
        with h have "u = 0x3B" by (simp add: lit_def)
        then have "0x3B \<in> set (e @ us)" using Cons by simp
        with h optional_chars(5) show ?thesis by simp
      qed
    qed
  qed
  have 2: "re_test re_optional_dot e" if "take 9 e = lit ''Optional.''"
  proof -
    have "e = take 9 e @ drop 9 e" by simp
    with that have "e = [] @ lit ''Optional.'' @ drop 9 e" by simp
    then show ?thesis unfolding re_test_optional_dot_iff by blast
  qed
  have 3: "re_test re_optional_dot l" if "re_test re_optional_dot e"
  proof -
    from that obtain a b where "e = a @ lit ''Optional.'' @ b"
      unfolding re_test_optional_dot_iff by blast
    with d have "l = (pre @ lit ''return'' @ ws @ a) @ lit ''Optional.'' @ (b @ lit '';'' @ rest)"
      by simp
    then show ?thesis unfolding re_test_optional_dot_iff by blast
  qed
  from 1 2 3 show "re_test re_optional_dot l \<longleftrightarrow> re_test re_optional_dot e" by blast
  from 1 2 3 show "re_test re_optional_dot e \<longleftrightarrow> take 9 e = lit ''Optional.''" by blast
qed

lemma reachable_line_ok:
  assumes "reachable st" "linesByStage st k = Some ls" "i < length ls"
  shows "line_ok (ls ! i)"
proof -
  from reachable_lines_ok[OF assms(1)] assms(2) have "\<forall>l \<in> set ls. line_ok l"
    unfolding lines_ok_def by blast
  with assms(3) show ?thesis by simp
qed

section \<open>The Throw transform\<close>

text \<open>
  Claim C2. A working line sequence is the value of \<open>linesByStage\<close> at a key in a
  reachable state of the per-line engine: a template, or what a sequence of drops has made
  of it. For every working line sequence and every index \<open>i\<close> inside it, \<open>applyThrow\<close>
  returns normally and does exactly one of two things. If line \<open>i\<close> matches
  \<^verbatim>\<open>/return\s+null;?/\<close>, the statement (\<^verbatim>\<open>return\<close>, white space, \<^verbatim>\<open>null\<close> and the
  semicolon that may follow) is replaced in place by the throw statement with the name
  \<^verbatim>\<open>UpstreamUnavailableException\<close>: the text before and after it and every other line
  stay, so the line count is unchanged, the new line matches the pattern no more, and the
  number of lines matching the pattern decreases by exactly one. Otherwise one line is
  inserted right after line \<open>i\<close>: the leading white space of line \<open>i\<close>, four spaces, and
  the throw statement with the name \<^verbatim>\<open>CustomDomainException\<close>; the lines up to \<open>i\<close> and
  after it stay and the line count grows by one.
\<close>

theorem applyThrow_on_working_lines:
  \<open>reachable st \<Longrightarrow> linesByStage st k = Some ls \<Longrightarrow> i < length ls \<Longrightarrow>
   (\<exists>r. applyThrow ls i = Inr r \<and>
     (if re_test re_return_null (ls ! i)
      then length r = length ls
         \<and> (\<forall>j < length ls. j \<noteq> i \<longrightarrow> r ! j = ls ! j)
         \<and> (\<exists>pre ws semi rest.
              ls ! i = pre @ lit ''return'' @ ws @ lit ''null'' @ semi @ rest
              \<and> ws \<noteq> [] \<and> (\<forall>c \<in> set ws. is_space c)
              \<and> (semi = lit '';'' \<or> semi = [] \<and> take 1 rest \<noteq> lit '';'')
              \<and> r ! i = pre
                     @ lit ''throw new <span contenteditable="true" class="ce">UpstreamUnavailableException</span>();''
                     @ rest)
         \<and> \<not> re_test re_return_null (r ! i)
         \<and> length (filter (re_test re_return_null) r) + 1
             = length (filter (re_test re_return_null) ls)
      else length r = length ls + 1
         \<and> take (i + 1) r = take (i + 1) ls
         \<and> r ! (i + 1) = takeWhile is_space (ls ! i) @ lit ''    ''
              @ lit ''throw new <span contenteditable="true" class="ce">CustomDomainException</span>();''
         \<and> drop (i + 2) r = drop (i + 1) ls))\<close>
proof -
  assume re: "reachable st" and k: "linesByStage st k = Some ls" and i: "i < length ls"
  have ok: "line_ok (ls ! i)" using re k i by (rule reachable_line_ok)
  show ?thesis
  proof (cases "re_test re_return_null (ls ! i)")
    case True
    then obtain pre caps rest where e: "re_exec re_return_null (ls ! i) = Some (pre, caps, rest)"
      unfolding re_test_def by auto
    note f = re_exec_return_null [OF e]
    from f(2) obtain ws semi where
      d: "ls ! i = pre @ lit ''return'' @ ws @ lit ''null'' @ semi @ rest"
         "ws \<noteq> []" "\<forall>c \<in> set ws. is_space c"
         "semi = lit '';'' \<or> semi = [] \<and> take 1 rest \<noteq> lit '';''"
      by blast
    define r where "r = ls[i := pre @ upstream_throw @ rest]"
    have a: "applyThrow ls i = Inr r"
      using i True e by (simp add: applyThrow_def Let_def re_replace_def r_def upstream_throw_def)
    have old: "\<forall>p < length pre. rematch re_return_null
                 (drop p (pre @ (lit ''return'' @ ws @ lit ''null'' @ semi) @ rest)) = []"
      using f(3) d(1) by simp
    have nr: "\<not> re_test re_return_null rest" using ok e by (rule no_second_return_null)
    have ri: "r ! i = pre @ upstream_throw @ rest" using i by (simp add: r_def)
    have m: "\<not> re_test re_return_null (r ! i)"
      unfolding ri using replaced_line_matches_iff[OF old] nr by simp
    have cnt: "length (filter (re_test re_return_null) r) + 1
                  = length (filter (re_test re_return_null) ls)"
      using filter_count_update[of i ls "re_test re_return_null" "pre @ upstream_throw @ rest", OF i True]
            m[unfolded ri]
      by (simp add: r_def)
    have len: "length r = length ls" by (simp add: r_def)
    have oth: "\<forall>j < length ls. j \<noteq> i \<longrightarrow> r ! j = ls ! j" by (simp add: r_def)
    have inner: \<open>\<exists>pre ws semi rest.
              ls ! i = pre @ lit ''return'' @ ws @ lit ''null'' @ semi @ rest
              \<and> ws \<noteq> [] \<and> (\<forall>c \<in> set ws. is_space c)
              \<and> (semi = lit '';'' \<or> semi = [] \<and> take 1 rest \<noteq> lit '';'')
              \<and> r ! i = pre
                     @ lit ''throw new <span contenteditable="true" class="ce">UpstreamUnavailableException</span>();''
                     @ rest\<close>
      apply (rule exI[of _ pre], rule exI[of _ ws], rule exI[of _ semi], rule exI[of _ rest])
      apply (intro conjI)
          apply (rule d(1))
         apply (rule d(2))
        apply (rule d(3))
       apply (rule d(4))
      apply (rule ri[unfolded upstream_throw_def])
      done
    show ?thesis
      apply (rule exI[of _ r])
      apply (simp only: True if_True)
      apply (intro conjI)
           apply (rule a)
          apply (rule len)
         apply (rule oth)
        apply (rule inner)
       apply (rule m)
      apply (rule cnt)
      done
  next
    case False
    define r where \<open>r = take (i + 1) ls
         @ [takeWhile is_space (ls ! i) @ lit ''    ''
              @ lit ''throw new <span contenteditable="true" class="ce">CustomDomainException</span>();'']
         @ drop (i + 1) ls\<close>
    have a: "applyThrow ls i = Inr r"
      using i False by (simp add: applyThrow_def Let_def leading_ws_takeWhile r_def)
    have "length r = length ls + 1" using i by (simp add: r_def)
    moreover have "take (i + 1) r = take (i + 1) ls" using i by (simp add: r_def)
    moreover have \<open>r ! (i + 1) = takeWhile is_space (ls ! i) @ lit ''    ''
              @ lit ''throw new <span contenteditable="true" class="ce">CustomDomainException</span>();''\<close>
      using i by (simp add: r_def nth_append)
    moreover have "drop (i + 2) r = drop (i + 1) ls"
      using i by (simp add: r_def)
    ultimately show ?thesis
      apply (intro exI[of _ r])
      apply (simp only: False if_False)
      using a by blast
  qed
qed

text \<open>
  The theorem in the initial state: at line 2 of the template of the fifth stage, which is
  replaced, and at line 1 of the template of the first stage, after which a line is
  inserted.
\<close>

theorem applyThrow_on_working_lines_witness:
  \<open>reachable initial_state
   \<and> linesByStage initial_state (lit ''upstream-503'')
       = Some [lit ''Response r = http.get("/partner");'',
               lit ''if (r.status() == 200) return r.body();'',
               lit ''return null; // currently hiding errors'',
               []]
   \<and> (2::nat) < length [lit ''Response r = http.get("/partner");'',
                      lit ''if (r.status() == 200) return r.body();'',
                      lit ''return null; // currently hiding errors'',
                      []]
   \<and> applyThrow [lit ''Response r = http.get("/partner");'',
                  lit ''if (r.status() == 200) return r.body();'',
                  lit ''return null; // currently hiding errors'',
                  []] 2
       = Inr [lit ''Response r = http.get("/partner");'',
              lit ''if (r.status() == 200) return r.body();'',
              lit ''throw new <span contenteditable="true" class="ce">UpstreamUnavailableException</span>(); // currently hiding errors'',
              []]
   \<and> length (filter (re_test re_return_null)
         [lit ''Response r = http.get("/partner");'',
          lit ''if (r.status() == 200) return r.body();'',
          lit ''return null; // currently hiding errors'',
          []]) = 1
   \<and> length (filter (re_test re_return_null)
         [lit ''Response r = http.get("/partner");'',
          lit ''if (r.status() == 200) return r.body();'',
          lit ''throw new <span contenteditable="true" class="ce">UpstreamUnavailableException</span>(); // currently hiding errors'',
          []]) = 0
   \<and> linesByStage initial_state (lit ''kafka-loop'')
       = Some [lit ''for (Record record : stream) {'',
               lit ''    processMessage(record); // may call networkCall()'',
               lit ''}'']
   \<and> (1::nat) < length [lit ''for (Record record : stream) {'',
               lit ''    processMessage(record); // may call networkCall()'',
               lit ''}'']
   \<and> applyThrow [lit ''for (Record record : stream) {'',
               lit ''    processMessage(record); // may call networkCall()'',
               lit ''}''] 1
       = Inr [lit ''for (Record record : stream) {'',
              lit ''    processMessage(record); // may call networkCall()'',
              lit ''        throw new <span contenteditable="true" class="ce">CustomDomainException</span>();'',
              lit ''}'']\<close>
proof -
  let ?S = \<open>[lit ''Response r = http.get("/partner");'',
             lit ''if (r.status() == 200) return r.body();'',
             lit ''return null; // currently hiding errors'',
             []]\<close>
  let ?R = \<open>[lit ''Response r = http.get("/partner");'',
              lit ''if (r.status() == 200) return r.body();'',
              lit ''throw new <span contenteditable="true" class="ce">UpstreamUnavailableException</span>(); // currently hiding errors'',
              []]\<close>
  let ?K = \<open>[lit ''for (Record record : stream) {'',
               lit ''    processMessage(record); // may call networkCall()'',
               lit ''}'']\<close>
  have kS: "linesByStage initial_state (lit ''upstream-503'') = Some ?S"
    by (simp add: initial_state_def initial_lines_def STAGES_def lit_def)
  have kK: "linesByStage initial_state (lit ''kafka-loop'') = Some ?K"
    by (simp add: initial_state_def initial_lines_def STAGES_def lit_def)
  have h: "(2::nat) < length ?S" by simp
  have h1: "(1::nat) < length ?K" by simp
  have m: "re_test re_return_null (?S ! 2)"
    by (simp add: re_test_def re_return_null_def lit_def is_space_def)
  have n: "\<not> re_test re_return_null (?K ! 1)"
    by (simp add: re_test_def re_return_null_def lit_def is_space_def)
  have c1: "length (filter (re_test re_return_null) ?S) = 1"
    by (simp add: re_test_def re_return_null_def lit_def is_space_def)
  from applyThrow_on_working_lines [OF reachable.r_init kS h] m obtain r where
    r: "applyThrow ?S 2 = Inr r" "length r = length ?S"
       "length (filter (re_test re_return_null) r) + 1
          = length (filter (re_test re_return_null) ?S)"
    by (simp only: if_True) blast
  have ev: "applyThrow ?S 2 = Inr ?R"
    by (simp add: applyThrow_def upstream_throw_def re_replace_def re_test_def re_return_null_def lit_def is_space_def)
  with r(1) have rR: "r = ?R" by simp
  from r(3) c1 have c0: "length (filter (re_test re_return_null) ?R) = 0"
    unfolding rR by simp
  from applyThrow_on_working_lines [OF reachable.r_init kK h1] n obtain r' where
    r': "applyThrow ?K 1 = Inr r'" "length r' = length ?K + 1"
        \<open>take (1 + 1) r' = take (1 + 1) ?K\<close>
        \<open>r' ! (1 + 1) = takeWhile is_space (?K ! 1) @ lit ''    ''
              @ lit ''throw new <span contenteditable="true" class="ce">CustomDomainException</span>();''\<close>
        \<open>drop (1 + 2) r' = drop (1 + 1) ?K\<close>
    by (simp only: if_False) blast
  have e12: "(1::nat) + 2 = Suc 2" "(1::nat) + 1 = 2" by simp_all
  have "r' = take 2 r' @ r' ! 2 # drop (Suc 2) r'"
    using r'(2) by (intro id_take_nth_drop) simp
  moreover have "take 2 r' = take 2 ?K" using r'(3) unfolding e12 .
  moreover have "drop (Suc 2) r' = drop 2 ?K" using r'(5) unfolding e12 .
  moreover have \<open>r' ! 2 = lit ''        throw new <span contenteditable="true" class="ce">CustomDomainException</span>();''\<close>
    using r'(4) unfolding e12 by (simp add: lit_def is_space_def)
  ultimately have \<open>r' = [lit ''for (Record record : stream) {'',
              lit ''    processMessage(record); // may call networkCall()'',
              lit ''        throw new <span contenteditable="true" class="ce">CustomDomainException</span>();'',
              lit ''}'']\<close>
    by simp
  with r'(1) have ins: \<open>applyThrow ?K 1
       = Inr [lit ''for (Record record : stream) {'',
              lit ''    processMessage(record); // may call networkCall()'',
              lit ''        throw new <span contenteditable="true" class="ce">CustomDomainException</span>();'',
              lit ''}'']\<close>
    by simp
  show ?thesis using reachable.r_init kS kK h h1 ev c1 c0 ins by simp
qed

section \<open>The Optional-return transform\<close>

lemma optional_empty_mentions_optional:
  assumes "re_test re_return_optional_empty l"
  shows "re_test re_optional_dot l"
proof -
  from assms obtain pre t where l: "l = pre @ t" and t: "rematch re_return_optional_empty t \<noteq> []"
    unfolding re_test_iff by blast
  from t obtain c r where "(c, r) \<in> set (rematch re_return_optional_empty t)"
    by (cases "rematch re_return_optional_empty t") auto
  then obtain c1 s1 c2 s2 c3 where
    1: "(c1, s1) \<in> set (rematch (Lit (lit ''return'')) t)" and
    2: "(c2, s2) \<in> set (rematch (Plus is_space) s1)" and
    3: "(c3, r) \<in> set (rematch (Lit (lit ''Optional.empty()'')) s2)"
    unfolding re_return_optional_empty_def set_rematch_Seq by blast
  from 1 have t1: "t = lit ''return'' @ s1" unfolding set_rematch_Lit by blast
  from 2 obtain ws where ws: "s1 = ws @ s2" unfolding set_rematch_Plus by blast
  from 3 have "s2 = lit ''Optional.empty()'' @ r" unfolding set_rematch_Lit by blast
  then have "s2 = lit ''Optional.'' @ (lit ''empty()'' @ r)" by (simp add: lit_def)
  with l t1 ws have "l = (pre @ lit ''return'' @ ws) @ lit ''Optional.'' @ (lit ''empty()'' @ r)"
    by simp
  then show ?thesis unfolding re_test_optional_dot_iff by blast
qed

text \<open>
  Claim C3. A line has the shape \<^verbatim>\<open>return <expr>;\<close> when it matches
  \<^verbatim>\<open>/return\s+.+;/\<close>: it holds \<^verbatim>\<open>return\<close>, white space, a non-empty text without line
  terminator, and a semicolon; \<^verbatim>\<open><expr>\<close> is the text the search captures. In a working
  line sequence the expression mentions \<^verbatim>\<open>Optional.\<close> exactly when it starts with it, and
  exactly when the line mentions it: the test of the source on the whole line is the test
  on the expression. For every working line sequence and every index \<open>i\<close> inside it,
  \<open>applyOptionalOf\<close> returns normally. If line \<open>i\<close> has that shape and its expression is
  not wrapped, the statement is rewritten in place to \<^verbatim>\<open>return Optional.of(<expr>);\<close>,
  and the line count is unchanged. For any other line, line \<open>i\<close> is left untouched and one
  sample line \<^verbatim>\<open>return Optional.of(...)\<close>, indented by four more spaces, is inserted right
  after it; a line returning \<^verbatim>\<open>Optional.empty()\<close> is among these.
\<close>

theorem applyOptionalOf_on_working_lines:
  \<open>reachable st \<Longrightarrow> linesByStage st k = Some ls \<Longrightarrow> i < length ls \<Longrightarrow>
   (re_test re_return_stmt (ls ! i) \<longleftrightarrow>
      (\<exists>pre ws e rest. ls ! i = pre @ lit ''return'' @ ws @ e @ lit '';'' @ rest
          \<and> ws \<noteq> [] \<and> (\<forall>c \<in> set ws. is_space c) \<and> e \<noteq> [] \<and> (\<forall>c \<in> set e. is_dot c)))
   \<and> (\<exists>r. applyOptionalOf ls i = Inr r \<and>
     (if re_test re_return_stmt (ls ! i)
      then (\<exists>pre ws e rest.
              re_exec re_return_expr (ls ! i) = Some (pre, [e], rest)
              \<and> ls ! i = pre @ lit ''return'' @ ws @ e @ lit '';'' @ rest
              \<and> ws \<noteq> [] \<and> (\<forall>c \<in> set ws. is_space c) \<and> e \<noteq> [] \<and> (\<forall>c \<in> set e. is_dot c)
              \<and> (re_test re_optional_dot e \<longleftrightarrow> take 9 e = lit ''Optional.'')
              \<and> (re_test re_optional_dot e \<longleftrightarrow> re_test re_optional_dot (ls ! i))
              \<and> (if \<not> re_test re_optional_dot e
                  then length r = length ls
                     \<and> r = ls[i := pre @ lit ''return Optional.of('' @ e @ lit '');'' @ rest]
                  else length r = length ls + 1
                     \<and> take (i + 1) r = take (i + 1) ls
                     \<and> r ! (i + 1) = takeWhile is_space (ls ! i) @ lit ''    ''
                          @ lit ''return Optional.of(<span contenteditable="true" class="ce">value</span>);''
                     \<and> drop (i + 2) r = drop (i + 1) ls))
      else length r = length ls + 1
         \<and> take (i + 1) r = take (i + 1) ls
         \<and> r ! (i + 1) = takeWhile is_space (ls ! i) @ lit ''    ''
              @ lit ''return Optional.of(<span contenteditable="true" class="ce">value</span>);''
         \<and> drop (i + 2) r = drop (i + 1) ls)
     \<and> (re_test re_return_optional_empty (ls ! i) \<longrightarrow>
          length r = length ls + 1 \<and> take (i + 1) r = take (i + 1) ls))\<close>
proof -
  assume re: "reachable st" and k: "linesByStage st k = Some ls" and i: "i < length ls"
  have ok: "line_ok (ls ! i)" using re k i by (rule reachable_line_ok)
  define x where \<open>x = takeWhile is_space (ls ! i) @ lit ''    ''
              @ lit ''return Optional.of(<span contenteditable="true" class="ce">value</span>);''\<close>
  define ins where "ins = take (i + 1) ls @ [x] @ drop (i + 1) ls"
  have ins: "length ins = length ls + 1" "take (i + 1) ins = take (i + 1) ls"
    "ins ! (i + 1) = x" "drop (i + 2) ins = drop (i + 1) ls"
    using i by (simp_all add: ins_def nth_append)
  have ains: "applyOptionalOf ls i = Inr ins"
    if "\<not> (re_test re_return_stmt (ls ! i) \<and> \<not> re_test re_optional_dot (ls ! i))"
    using i that by (auto simp add: applyOptionalOf_def Let_def leading_ws_takeWhile ins_def x_def)
  have main: \<open>\<exists>r. applyOptionalOf ls i = Inr r \<and>
     (if re_test re_return_stmt (ls ! i)
      then (\<exists>pre ws e rest.
              re_exec re_return_expr (ls ! i) = Some (pre, [e], rest)
              \<and> ls ! i = pre @ lit ''return'' @ ws @ e @ lit '';'' @ rest
              \<and> ws \<noteq> [] \<and> (\<forall>c \<in> set ws. is_space c) \<and> e \<noteq> [] \<and> (\<forall>c \<in> set e. is_dot c)
              \<and> (re_test re_optional_dot e \<longleftrightarrow> take 9 e = lit ''Optional.'')
              \<and> (re_test re_optional_dot e \<longleftrightarrow> re_test re_optional_dot (ls ! i))
              \<and> (if \<not> re_test re_optional_dot e
                  then length r = length ls
                     \<and> r = ls[i := pre @ lit ''return Optional.of('' @ e @ lit '');'' @ rest]
                  else length r = length ls + 1
                     \<and> take (i + 1) r = take (i + 1) ls
                     \<and> r ! (i + 1) = x
                     \<and> drop (i + 2) r = drop (i + 1) ls))
      else length r = length ls + 1
         \<and> take (i + 1) r = take (i + 1) ls
         \<and> r ! (i + 1) = x
         \<and> drop (i + 2) r = drop (i + 1) ls)
     \<and> (re_test re_return_optional_empty (ls ! i) \<longrightarrow>
          length r = length ls + 1 \<and> take (i + 1) r = take (i + 1) ls)\<close>
  proof (cases "re_test re_return_stmt (ls ! i)")
    case False
    then have a: "applyOptionalOf ls i = Inr ins" by (intro ains) simp
    show ?thesis
      apply (rule exI[of _ ins])
      apply (simp only: False if_False)
      using a ins by blast
  next
    case True
    from re_exec_return_expr[OF True] obtain pre ws e rest where
      d: "re_exec re_return_expr (ls ! i) = Some (pre, [e], rest)"
         "ls ! i = pre @ lit ''return'' @ ws @ e @ lit '';'' @ rest"
         "ws \<noteq> []" "\<forall>c \<in> set ws. is_space c" "e \<noteq> []" "\<forall>c \<in> set e. is_dot c"
      by blast
    note w = wrapped_expr_iff[OF ok d(2) d(3) d(4)]
    have w1: "re_test re_optional_dot e \<longleftrightarrow> take 9 e = lit ''Optional.''" by (rule w(2))
    have w2: "re_test re_optional_dot e \<longleftrightarrow> re_test re_optional_dot (ls ! i)" using w(1) by simp
    show ?thesis
    proof (cases "re_test re_optional_dot e")
      case wrapped: True
      then have "\<not> (re_test re_return_stmt (ls ! i) \<and> \<not> re_test re_optional_dot (ls ! i))"
        using w2 by simp
      then have a: "applyOptionalOf ls i = Inr ins" by (rule ains)
      have br: "if \<not> re_test re_optional_dot e
                  then length ins = length ls
                     \<and> ins = ls[i := pre @ lit ''return Optional.of('' @ e @ lit '');'' @ rest]
                  else length ins = length ls + 1
                     \<and> take (i + 1) ins = take (i + 1) ls
                     \<and> ins ! (i + 1) = x
                     \<and> drop (i + 2) ins = drop (i + 1) ls"
        using wrapped ins by simp
      have inner: "\<exists>pre ws e rest.
              re_exec re_return_expr (ls ! i) = Some (pre, [e], rest)
              \<and> ls ! i = pre @ lit ''return'' @ ws @ e @ lit '';'' @ rest
              \<and> ws \<noteq> [] \<and> (\<forall>c \<in> set ws. is_space c) \<and> e \<noteq> [] \<and> (\<forall>c \<in> set e. is_dot c)
              \<and> (re_test re_optional_dot e \<longleftrightarrow> take 9 e = lit ''Optional.'')
              \<and> (re_test re_optional_dot e \<longleftrightarrow> re_test re_optional_dot (ls ! i))
              \<and> (if \<not> re_test re_optional_dot e
                  then length ins = length ls
                     \<and> ins = ls[i := pre @ lit ''return Optional.of('' @ e @ lit '');'' @ rest]
                  else length ins = length ls + 1
                     \<and> take (i + 1) ins = take (i + 1) ls
                     \<and> ins ! (i + 1) = x
                     \<and> drop (i + 2) ins = drop (i + 1) ls)"
        apply (rule exI[of _ pre], rule exI[of _ ws], rule exI[of _ e], rule exI[of _ rest])
        apply (intro conjI)
                apply (rule d(1))
               apply (rule d(2))
              apply (rule d(3))
             apply (rule d(4))
            apply (rule d(5))
           apply (rule d(6))
          apply (rule w1)
         apply (rule w2)
        apply (rule br)
        done
      show ?thesis
        apply (rule exI[of _ ins])
        apply (simp only: True if_True)
        apply (intro conjI impI)
           apply (rule a)
          apply (rule inner)
         apply (rule ins(1))
        apply (rule ins(2))
        done
    next
      case plain: False
      then have g: "re_test re_return_stmt (ls ! i) \<and> \<not> re_test re_optional_dot (ls ! i)"
        using True w2 by simp
      define r where "r = ls[i := pre @ lit ''return Optional.of('' @ e @ lit '');'' @ rest]"
      have a: "applyOptionalOf ls i = Inr r"
        using i g d(1) by (simp add: applyOptionalOf_def Let_def re_replace_def r_def)
      have len: "length r = length ls" by (simp add: r_def)
      have br: "if \<not> re_test re_optional_dot e
                  then length r = length ls
                     \<and> r = ls[i := pre @ lit ''return Optional.of('' @ e @ lit '');'' @ rest]
                  else length r = length ls + 1
                     \<and> take (i + 1) r = take (i + 1) ls
                     \<and> r ! (i + 1) = x
                     \<and> drop (i + 2) r = drop (i + 1) ls"
        using plain len r_def by simp
      have inner: "\<exists>pre ws e rest.
              re_exec re_return_expr (ls ! i) = Some (pre, [e], rest)
              \<and> ls ! i = pre @ lit ''return'' @ ws @ e @ lit '';'' @ rest
              \<and> ws \<noteq> [] \<and> (\<forall>c \<in> set ws. is_space c) \<and> e \<noteq> [] \<and> (\<forall>c \<in> set e. is_dot c)
              \<and> (re_test re_optional_dot e \<longleftrightarrow> take 9 e = lit ''Optional.'')
              \<and> (re_test re_optional_dot e \<longleftrightarrow> re_test re_optional_dot (ls ! i))
              \<and> (if \<not> re_test re_optional_dot e
                  then length r = length ls
                     \<and> r = ls[i := pre @ lit ''return Optional.of('' @ e @ lit '');'' @ rest]
                  else length r = length ls + 1
                     \<and> take (i + 1) r = take (i + 1) ls
                     \<and> r ! (i + 1) = x
                     \<and> drop (i + 2) r = drop (i + 1) ls)"
        apply (rule exI[of _ pre], rule exI[of _ ws], rule exI[of _ e], rule exI[of _ rest])
        apply (intro conjI)
                apply (rule d(1))
               apply (rule d(2))
              apply (rule d(3))
             apply (rule d(4))
            apply (rule d(5))
           apply (rule d(6))
          apply (rule w1)
         apply (rule w2)
        apply (rule br)
        done
      have noe: "\<not> re_test re_return_optional_empty (ls ! i)"
        using g optional_empty_mentions_optional by blast
      show ?thesis
        apply (rule exI[of _ r])
        apply (simp only: True if_True)
        apply (intro conjI)
          apply (rule a)
         apply (rule inner)
        using noe apply simp
        done
    qed
  qed
  show ?thesis
    apply (intro conjI)
     apply (rule re_test_return_stmt_iff)
    apply (rule main[unfolded x_def])
    done
qed

text \<open>
  The theorem in the initial state: at line 2 of the template of the third stage, which is
  rewritten, and at line 2 of the template of the second stage, which returns
  \<^verbatim>\<open>Optional.empty()\<close>.
\<close>

theorem applyOptionalOf_on_working_lines_witness:
  \<open>reachable initial_state
   \<and> linesByStage initial_state (lit ''controller-boundary'')
       = Some [lit ''@GetMapping("/orders/{id}")'',
               lit ''public ResponseEntity<?> get(@PathVariable String id) {'',
               lit ''    return ResponseEntity.ok(service.fetch(id));'',
               lit ''}'']
   \<and> (2::nat) < length [lit ''@GetMapping("/orders/{id}")'',
                      lit ''public ResponseEntity<?> get(@PathVariable String id) {'',
                      lit ''    return ResponseEntity.ok(service.fetch(id));'',
                      lit ''}'']
   \<and> re_exec re_return_expr (lit ''    return ResponseEntity.ok(service.fetch(id));'')
       = Some (lit ''    '', [lit ''ResponseEntity.ok(service.fetch(id))''], [])
   \<and> \<not> re_test re_optional_dot (lit ''ResponseEntity.ok(service.fetch(id))'')
   \<and> applyOptionalOf [lit ''@GetMapping("/orders/{id}")'',
                      lit ''public ResponseEntity<?> get(@PathVariable String id) {'',
                      lit ''    return ResponseEntity.ok(service.fetch(id));'',
                      lit ''}''] 2
       = Inr [lit ''@GetMapping("/orders/{id}")'',
              lit ''public ResponseEntity<?> get(@PathVariable String id) {'',
              lit ''    return Optional.of(ResponseEntity.ok(service.fetch(id)));'',
              lit ''}'']
   \<and> linesByStage initial_state (lit ''repo-optional'')
       = Some [lit ''public Optional<User> findByEmail(String email) {'',
               lit ''    // query DB...'',
               lit ''    return Optional.empty(); // sometimes; distinguish from DB failure'',
               lit ''}'']
   \<and> (2::nat) < length [lit ''public Optional<User> findByEmail(String email) {'',
                      lit ''    // query DB...'',
                      lit ''    return Optional.empty(); // sometimes; distinguish from DB failure'',
                      lit ''}'']
   \<and> re_exec re_return_expr (lit ''    return Optional.empty(); // sometimes; distinguish from DB failure'')
       = Some (lit ''    '', [lit ''Optional.empty(); // sometimes''], lit '' distinguish from DB failure'')
   \<and> re_test re_optional_dot (lit ''Optional.empty(); // sometimes'')
   \<and> applyOptionalOf [lit ''public Optional<User> findByEmail(String email) {'',
                      lit ''    // query DB...'',
                      lit ''    return Optional.empty(); // sometimes; distinguish from DB failure'',
                      lit ''}''] 2
       = Inr [lit ''public Optional<User> findByEmail(String email) {'',
              lit ''    // query DB...'',
              lit ''    return Optional.empty(); // sometimes; distinguish from DB failure'',
              lit ''        return Optional.of(<span contenteditable="true" class="ce">value</span>);'',
              lit ''}'']\<close>
proof -
  let ?A = \<open>[lit ''@GetMapping("/orders/{id}")'',
             lit ''public ResponseEntity<?> get(@PathVariable String id) {'',
             lit ''    return ResponseEntity.ok(service.fetch(id));'',
             lit ''}'']\<close>
  let ?B = \<open>[lit ''public Optional<User> findByEmail(String email) {'',
             lit ''    // query DB...'',
             lit ''    return Optional.empty(); // sometimes; distinguish from DB failure'',
             lit ''}'']\<close>
  let ?x = \<open>lit ''return Optional.of(<span contenteditable="true" class="ce">value</span>);''\<close>
  have kA: "linesByStage initial_state (lit ''controller-boundary'') = Some ?A"
    by (simp add: initial_state_def initial_lines_def STAGES_def lit_def)
  have kB: "linesByStage initial_state (lit ''repo-optional'') = Some ?B"
    by (simp add: initial_state_def initial_lines_def STAGES_def lit_def)
  have hA: "(2::nat) < length ?A" by simp
  have hB: "(2::nat) < length ?B" by simp
  have exA: \<open>re_exec re_return_expr (?A ! 2)
      = Some (lit ''    '', [lit ''ResponseEntity.ok(service.fetch(id))''], [])\<close>
    by (simp add: re_return_expr_def lit_def is_space_def is_dot_def is_line_terminator_def)
  have exB: \<open>re_exec re_return_expr (?B ! 2)
      = Some (lit ''    '', [lit ''Optional.empty(); // sometimes''], lit '' distinguish from DB failure'')\<close>
    by (simp add: re_return_expr_def lit_def is_space_def is_dot_def is_line_terminator_def)
  have tA: "re_test re_return_stmt (?A ! 2)"
    by (simp add: re_test_def re_return_stmt_def lit_def is_space_def is_dot_def is_line_terminator_def)
  have tB: "re_test re_return_stmt (?B ! 2)"
    by (simp add: re_test_def re_return_stmt_def lit_def is_space_def is_dot_def is_line_terminator_def)
  have nA: "\<not> re_test re_optional_dot (lit ''ResponseEntity.ok(service.fetch(id))'')"
    by (simp add: re_test_def re_optional_dot_def lit_def)
  have wB: "re_test re_optional_dot (lit ''Optional.empty(); // sometimes'')"
    by (simp add: re_test_def re_optional_dot_def lit_def)
  from applyOptionalOf_on_working_lines [OF reachable.r_init kA hA] obtain r where
    r: "applyOptionalOf ?A 2 = Inr r"
       \<open>if re_test re_return_stmt (?A ! 2)
        then (\<exists>pre ws e rest.
              re_exec re_return_expr (?A ! 2) = Some (pre, [e], rest)
              \<and> ?A ! 2 = pre @ lit ''return'' @ ws @ e @ lit '';'' @ rest
              \<and> ws \<noteq> [] \<and> (\<forall>c \<in> set ws. is_space c) \<and> e \<noteq> [] \<and> (\<forall>c \<in> set e. is_dot c)
              \<and> (re_test re_optional_dot e \<longleftrightarrow> take 9 e = lit ''Optional.'')
              \<and> (re_test re_optional_dot e \<longleftrightarrow> re_test re_optional_dot (?A ! 2))
              \<and> (if \<not> re_test re_optional_dot e
                  then length r = length ?A
                     \<and> r = ?A[2 := pre @ lit ''return Optional.of('' @ e @ lit '');'' @ rest]
                  else length r = length ?A + 1
                     \<and> take (2 + 1) r = take (2 + 1) ?A
                     \<and> r ! (2 + 1) = takeWhile is_space (?A ! 2) @ lit ''    '' @ ?x
                     \<and> drop (2 + 2) r = drop (2 + 1) ?A))
        else length r = length ?A + 1
         \<and> take (2 + 1) r = take (2 + 1) ?A
         \<and> r ! (2 + 1) = takeWhile is_space (?A ! 2) @ lit ''    '' @ ?x
         \<and> drop (2 + 2) r = drop (2 + 1) ?A\<close>
    by blast
  from r(2) obtain pre e rest where
    p: "re_exec re_return_expr (?A ! 2) = Some (pre, [e], rest)"
       \<open>if \<not> re_test re_optional_dot e
                  then length r = length ?A
                     \<and> r = ?A[2 := pre @ lit ''return Optional.of('' @ e @ lit '');'' @ rest]
                  else length r = length ?A + 1
                     \<and> take (2 + 1) r = take (2 + 1) ?A
                     \<and> r ! (2 + 1) = takeWhile is_space (?A ! 2) @ lit ''    '' @ ?x
                     \<and> drop (2 + 2) r = drop (2 + 1) ?A\<close>
    unfolding if_P[OF tA] by blast
  from p(1) exA have pe: "pre = lit ''    ''" "e = lit ''ResponseEntity.ok(service.fetch(id))''" "rest = []"
    by simp_all
  have "\<not> re_test re_optional_dot e" unfolding pe by (rule nA)
  from p(2)[unfolded if_P[OF this]]
  have "r = ?A[2 := pre @ lit ''return Optional.of('' @ e @ lit '');'' @ rest]" by blast
  then have rA: \<open>r = [lit ''@GetMapping("/orders/{id}")'',
              lit ''public ResponseEntity<?> get(@PathVariable String id) {'',
              lit ''    return Optional.of(ResponseEntity.ok(service.fetch(id)));'',
              lit ''}'']\<close>
    unfolding pe by (simp add: lit_def)
  from applyOptionalOf_on_working_lines [OF reachable.r_init kB hB] obtain r' where
    r': "applyOptionalOf ?B 2 = Inr r'"
       \<open>if re_test re_return_stmt (?B ! 2)
        then (\<exists>pre ws e rest.
              re_exec re_return_expr (?B ! 2) = Some (pre, [e], rest)
              \<and> ?B ! 2 = pre @ lit ''return'' @ ws @ e @ lit '';'' @ rest
              \<and> ws \<noteq> [] \<and> (\<forall>c \<in> set ws. is_space c) \<and> e \<noteq> [] \<and> (\<forall>c \<in> set e. is_dot c)
              \<and> (re_test re_optional_dot e \<longleftrightarrow> take 9 e = lit ''Optional.'')
              \<and> (re_test re_optional_dot e \<longleftrightarrow> re_test re_optional_dot (?B ! 2))
              \<and> (if \<not> re_test re_optional_dot e
                  then length r' = length ?B
                     \<and> r' = ?B[2 := pre @ lit ''return Optional.of('' @ e @ lit '');'' @ rest]
                  else length r' = length ?B + 1
                     \<and> take (2 + 1) r' = take (2 + 1) ?B
                     \<and> r' ! (2 + 1) = takeWhile is_space (?B ! 2) @ lit ''    '' @ ?x
                     \<and> drop (2 + 2) r' = drop (2 + 1) ?B))
        else length r' = length ?B + 1
         \<and> take (2 + 1) r' = take (2 + 1) ?B
         \<and> r' ! (2 + 1) = takeWhile is_space (?B ! 2) @ lit ''    '' @ ?x
         \<and> drop (2 + 2) r' = drop (2 + 1) ?B\<close>
    by blast
  from r'(2) obtain pre' e' rest' where
    p': "re_exec re_return_expr (?B ! 2) = Some (pre', [e'], rest')"
       \<open>if \<not> re_test re_optional_dot e'
                  then length r' = length ?B
                     \<and> r' = ?B[2 := pre' @ lit ''return Optional.of('' @ e' @ lit '');'' @ rest']
                  else length r' = length ?B + 1
                     \<and> take (2 + 1) r' = take (2 + 1) ?B
                     \<and> r' ! (2 + 1) = takeWhile is_space (?B ! 2) @ lit ''    '' @ ?x
                     \<and> drop (2 + 2) r' = drop (2 + 1) ?B\<close>
    unfolding if_P[OF tB] by blast
  from p'(1) exB have "e' = lit ''Optional.empty(); // sometimes''" by simp
  with wB have "\<not> \<not> re_test re_optional_dot e'" by simp
  from p'(2)[unfolded if_not_P[OF this]]
  have q: "length r' = length ?B + 1" "take (2 + 1) r' = take (2 + 1) ?B"
       \<open>r' ! (2 + 1) = takeWhile is_space (?B ! 2) @ lit ''    '' @ ?x\<close>
       "drop (2 + 2) r' = drop (2 + 1) ?B"
    by blast+
  have "r' = take 3 r' @ r' ! 3 # drop (Suc 3) r'"
    using q(1) by (intro id_take_nth_drop) simp
  moreover have "take 3 r' = take 3 ?B" using q(2) by simp
  moreover have "drop (Suc 3) r' = drop 3 ?B" using q(4) by simp
  moreover have \<open>r' ! 3 = lit ''        return Optional.of(<span contenteditable="true" class="ce">value</span>);''\<close>
    using q(3) by (simp add: lit_def is_space_def)
  ultimately have rB: \<open>r' = [lit ''public Optional<User> findByEmail(String email) {'',
              lit ''    // query DB...'',
              lit ''    return Optional.empty(); // sometimes; distinguish from DB failure'',
              lit ''        return Optional.of(<span contenteditable="true" class="ce">value</span>);'',
              lit ''}'']\<close>
    by simp
  have exA': \<open>re_exec re_return_expr (lit ''    return ResponseEntity.ok(service.fetch(id));'')
       = Some (lit ''    '', [lit ''ResponseEntity.ok(service.fetch(id))''], [])\<close>
    using exA by simp
  have exB': \<open>re_exec re_return_expr (lit ''    return Optional.empty(); // sometimes; distinguish from DB failure'')
       = Some (lit ''    '', [lit ''Optional.empty(); // sometimes''], lit '' distinguish from DB failure'')\<close>
    using exB by simp
  show ?thesis
    apply (intro conjI)
              apply (rule reachable.r_init)
             apply (rule kA)
            apply (rule hA)
           apply (rule exA')
          apply (rule nA)
         apply (rule r(1)[unfolded rA])
        apply (rule kB)
       apply (rule hB)
      apply (rule exB')
     apply (rule wB)
    apply (rule r'(1)[unfolded rB])
    done
qed


section \<open>Invariants of the reachable states\<close>

lemma handle_stageIdx_valid:
  "stageIdx st < length STAGES \<Longrightarrow> stageIdx (handle st ev) < length STAGES"
  by (cases ev)
     (auto simp: handle_def applyActionAt_def nextStage_def resetStage_def resetAll_def Let_def
                 length_STAGES
           split: sum.splits option.splits if_splits)

lemma reachable_stageIdx: "reachable st \<Longrightarrow> stageIdx st < length STAGES"
proof (induction rule: reachable.induct)
  case r_init
  show ?case by (simp add: initial_state_def length_STAGES)
next
  case (r_step st ev)
  from r_step.IH show ?case by (rule handle_stageIdx_valid)
qed

lemma handle_lines_defined:
  assumes "\<forall>i < length STAGES. linesByStage st (key (STAGES ! i)) \<noteq> None"
  shows "\<forall>i < length STAGES. linesByStage (handle st ev) (key (STAGES ! i)) \<noteq> None"
  using assms
  by (cases ev)
     (auto simp: handle_def applyActionAt_def nextStage_def resetStage_def resetAll_def Let_def
                 initial_lines_stage
           split: sum.splits option.splits if_splits)

lemma reachable_lines:
  "reachable st \<Longrightarrow> \<forall>i < length STAGES. linesByStage st (key (STAGES ! i)) \<noteq> None"
  by (induction rule: reachable.induct)
     (simp_all add: initial_state_def initial_lines_stage handle_lines_defined)

lemma handleS_stageIdx_valid:
  "stageIdxS st < length STAGES \<Longrightarrow> stageIdxS (handleS st ev) < length STAGES"
  by (cases ev)
     (auto simp: handleS_def applyAction_def record_of_def goNext_def reset_def setCustomException_def
                 needHint_def Let_def length_STAGES
           split: sum.splits option.splits if_splits)

lemma reachableS_stageIdx: "reachableS st \<Longrightarrow> stageIdxS st < length STAGES"
proof (induction rule: reachableS.induct)
  case s_init
  show ?case by (simp add: initial_strict_def length_STAGES)
next
  case (s_step st ev)
  from s_step.IH show ?case by (rule handleS_stageIdx_valid)
qed

lemma reachable_run: "reachable st \<Longrightarrow> reachable (foldl handle st evs)"
  by (induction evs arbitrary: st) (auto intro: reachable.r_step)

lemma reachableS_run: "reachableS st \<Longrightarrow> reachableS (foldl handleS st evs)"
  by (induction evs arbitrary: st) (auto intro: reachableS.s_step)

section \<open>Advancing\<close>

text \<open>
  Claim C5. In every reachable state of either engine, when the active stage may not be
  advanced (no action counted yet in the per-line engine, an expected action kind missing
  in the per-stage engine), the handler of Next returns normally, leaves the stage index
  and every other cell of the state, and appends exactly one entry to the log:
  \<^verbatim>\<open>Hint for <stage title>: <hint>\<close>.
\<close>

theorem advance_blocked_appends_hint:
  "reachable st \<Longrightarrow> reachableS ss \<Longrightarrow>
   (\<not> canAdvance (count_of st (key (STAGES ! stageIdx st))) \<longrightarrow>
      nextStage st =
        Inr (st\<lparr>log := log st @ [lit ''Hint for '' @ title (STAGES ! stageIdx st) @ lit '': ''
                                 @ hint (STAGES ! stageIdx st)]\<rparr>)
      \<and> stageIdx (handle st Next) = stageIdx st
      \<and> linesByStage (handle st Next) = linesByStage st
      \<and> appliedCounts (handle st Next) = appliedCounts st
      \<and> length (log (handle st Next)) = length (log st) + 1)
   \<and> (\<not> ok (scoreStage ss (STAGES ! stageIdxS ss)) \<longrightarrow>
      goNext ss =
        Inr (ss\<lparr>logS := logS ss @ [lit ''Hint for '' @ title (STAGES ! stageIdxS ss) @ lit '': ''
                                   @ hint (STAGES ! stageIdxS ss)]\<rparr>)
      \<and> stageIdxS (handleS ss NextS) = stageIdxS ss
      \<and> applied (handleS ss NextS) = applied ss
      \<and> showBest (handleS ss NextS) = showBest ss
      \<and> customException (handleS ss NextS) = customException ss
      \<and> length (logS (handleS ss NextS)) = length (logS ss) + 1)"
proof -
  assume r: "reachable st" and rs: "reachableS ss"
  have i: "stageIdx st < length STAGES" using r by (rule reachable_stageIdx)
  have j: "stageIdxS ss < length STAGES" using rs by (rule reachableS_stageIdx)
  show ?thesis
    using i j by (simp add: nextStage_def goNext_def handle_def handleS_def Let_def)
qed

text \<open>The theorem at the first render of both engines.\<close>

theorem advance_blocked_appends_hint_witness:
  "reachable initial_state \<and> reachableS initial_strict
   \<and> \<not> canAdvance (count_of initial_state (key (STAGES ! stageIdx initial_state)))
   \<and> \<not> ok (scoreStage initial_strict (STAGES ! stageIdxS initial_strict))
   \<and> log (handle initial_state Next) =
        [lit ''Hint for Stage 1 '' @ [0x2014] @ lit '' Streaming loop: Catch locally to decide skip/retry; throw (translated) so the boundary can act (DLQ/retry).'']
   \<and> stageIdx (handle initial_state Next) = 0
   \<and> logS (handleS initial_strict NextS) =
        [lit ''Hint for Stage 1 '' @ [0x2014] @ lit '' Streaming loop: Catch locally to decide skip/retry; throw (translated) so the boundary can act (DLQ/retry).'']
   \<and> stageIdxS (handleS initial_strict NextS) = 0"
proof -
  have a: "\<not> canAdvance (count_of initial_state (key (STAGES ! stageIdx initial_state)))"
    by (simp add: canAdvance_def count_of_def initial_state_def)
  have b: "\<not> ok (scoreStage initial_strict (STAGES ! stageIdxS initial_strict))"
    by (simp add: scoreStage_def used_values_def record_of_def initial_strict_def STAGES_def)
  have t: "title (STAGES ! 0) = lit ''Stage 1 '' @ [0x2014] @ lit '' Streaming loop''"
    and h: "hint (STAGES ! 0) = lit ''Catch locally to decide skip/retry; throw (translated) so the boundary can act (DLQ/retry).''"
    by (simp_all add: STAGES_def)
  have i0: "stageIdx initial_state = 0" "log initial_state = []"
    by (simp_all add: initial_state_def)
  have j0: "stageIdxS initial_strict = 0" "logS initial_strict = []"
    by (simp_all add: initial_strict_def)
  from advance_blocked_appends_hint [OF r_init s_init] a b
  have n: "nextStage initial_state =
        Inr (initial_state\<lparr>log := log initial_state @ [lit ''Hint for '' @ title (STAGES ! stageIdx initial_state) @ lit '': ''
                                 @ hint (STAGES ! stageIdx initial_state)]\<rparr>)"
    and g: "goNext initial_strict =
        Inr (initial_strict\<lparr>logS := logS initial_strict @ [lit ''Hint for '' @ title (STAGES ! stageIdxS initial_strict) @ lit '': ''
                                   @ hint (STAGES ! stageIdxS initial_strict)]\<rparr>)"
    by blast+
  have "log (handle initial_state Next) =
        [lit ''Hint for Stage 1 '' @ [0x2014] @ lit '' Streaming loop: Catch locally to decide skip/retry; throw (translated) so the boundary can act (DLQ/retry).'']"
    using n by (simp add: handle_def i0 t h lit_def)
  moreover have "stageIdx (handle initial_state Next) = 0"
    using n by (simp add: handle_def i0)
  moreover have "logS (handleS initial_strict NextS) =
        [lit ''Hint for Stage 1 '' @ [0x2014] @ lit '' Streaming loop: Catch locally to decide skip/retry; throw (translated) so the boundary can act (DLQ/retry).'']"
    using g by (simp add: handleS_def j0 t h lit_def)
  moreover have "stageIdxS (handleS initial_strict NextS) = 0"
    using g by (simp add: handleS_def j0)
  ultimately show ?thesis using a b r_init s_init by blast
qed

text \<open>Concrete states used to instantiate the theorems.\<close>

lemma stage0_fields:
  "key (STAGES ! 0) = lit ''kafka-loop''"
  "title (STAGES ! 0) = lit ''Stage 1 '' @ [0x2014] @ lit '' Streaming loop''"
  \<open>snippet (STAGES ! 0) = [lit ''for (Record record : stream) {'',
         lit ''    processMessage(record); // may call networkCall()'',
         lit ''}'']\<close>
  "expectedKeys (STAGES ! 0) = [lit ''catch'', lit ''throw'']"
  by (simp_all add: STAGES_def)

lemma initial_lines_kafka:
  \<open>initial_lines (lit ''kafka-loop'') = Some [lit ''for (Record record : stream) {'',
         lit ''    processMessage(record); // may call networkCall()'',
         lit ''}'']\<close>
  using initial_lines_stage [of 0] by (simp add: length_STAGES stage0_fields)

lemma catch_line1_state:
  \<open>handle initial_state (Drop (lit ''catch'') 1) = \<lparr>stageIdx = 0,
   linesByStage = initial_lines(lit ''kafka-loop'' \<mapsto>
      [lit ''for (Record record : stream) {'',
       lit ''    try {'',
       lit ''        processMessage(record); // may call networkCall()'',
       lit ''    } catch (<span contenteditable="true" class="ce">Exception</span> e) {'',
       lit ''        // <span contenteditable="true" class="ce">decide: skip/retry/DLQ/translate</span>'',
       lit ''    }'',
       lit ''}'']),
   appliedCounts = [lit ''kafka-loop'' \<mapsto> 1],
   log = [lit ''Applied catch to line 2 in Stage 1 '' @ [0x2014] @ lit '' Streaming loop'']\<rparr>\<close>
proof -
  have c: \<open>applyCatch [lit ''for (Record record : stream) {'',
         lit ''    processMessage(record); // may call networkCall()'',
         lit ''}''] (Suc 0) = Inr [lit ''for (Record record : stream) {'',
       lit ''    try {'',
       lit ''        processMessage(record); // may call networkCall()'',
       lit ''    } catch (<span contenteditable="true" class="ce">Exception</span> e) {'',
       lit ''        // <span contenteditable="true" class="ce">decide: skip/retry/DLQ/translate</span>'',
       lit ''    }'',
       lit ''}'']\<close>
    by (simp add: applyCatch_def leading_ws_takeWhile lit_def is_space_def trim_def esc_def)
  have ne: "lit ''catch'' \<noteq> lit ''throw''" by (simp add: lit_def)
  have sn: "show_nat (Suc (Suc 0)) = lit ''2''" by (simp add: show_nat.simps lit_def)
  show ?thesis
    unfolding handle_def
    apply (simp add: applyActionAt_def initial_state_def length_STAGES initial_lines_kafka c ne
                     Let_def count_of_def stage0_fields sn)
    apply (simp add: lit_def)
    done
qed

lemma two_drops_strict:
  "foldl handleS initial_strict [DropS (lit ''catch'') 1, DropS (lit ''throw'') 2] =
     \<lparr>stageIdxS = 0,
      applied = [lit ''kafka-loop'' \<mapsto>
                  [(1, lit ''catch''), (2, lit ''throw:UpstreamUnavailableException'')]],
      logS = [lit ''Applied catch to Stage 1 '' @ [0x2014] @ lit '' Streaming loop'',
              lit ''Applied Throw(UpstreamUnavailableException) to Stage 1 '' @ [0x2014]
                @ lit '' Streaming loop''],
      customException = lit ''UpstreamUnavailableException'', showBest = False\<rparr>"
proof -
  have ne: "lit ''catch'' \<noteq> lit ''throw''" "lit ''UpstreamUnavailableException'' \<noteq> []"
    by (simp_all add: lit_def)
  show ?thesis
    apply (simp add: handleS_def applyAction_def record_of_def initial_strict_def length_STAGES Let_def
                     stage0_fields ne)
    apply (simp add: lit_def)
    done
qed

text \<open>
  Claim C6. In every reachable state of either engine the stage index is an index into
  \<open>STAGES\<close>. Next is the only event that can raise it, and by exactly one: when the stage
  may be advanced and is not the last. On the last stage a permitted Next leaves the index
  and marks the end (the completion message in the per-line engine, \<open>showBest\<close> in the
  per-stage engine). A blocked Next, a drop, a stage reset, typing an exception name and
  asking for a hint leave the index; Restart sets it to 0.
\<close>

theorem stage_index_transitions:
  "reachable st \<Longrightarrow> reachableS ss \<Longrightarrow>
   stageIdx st < length STAGES
   \<and> handle st Next =
       (if \<not> canAdvance (count_of st (key (STAGES ! stageIdx st)))
        then st\<lparr>log := log st @ [lit ''Hint for '' @ title (STAGES ! stageIdx st) @ lit '': ''
                                  @ hint (STAGES ! stageIdx st)]\<rparr>
        else if stageIdx st + 1 < length STAGES then st\<lparr>stageIdx := stageIdx st + 1\<rparr>
        else st\<lparr>log := log st @ [completion_message]\<rparr>)
   \<and> (\<forall>actionId idx. stageIdx (handle st (Drop actionId idx)) = stageIdx st)
   \<and> stageIdx (handle st ResetStage) = stageIdx st
   \<and> stageIdx (handle st ResetAll) = 0
   \<and> stageIdxS ss < length STAGES
   \<and> handleS ss NextS =
       (if \<not> ok (scoreStage ss (STAGES ! stageIdxS ss))
        then ss\<lparr>logS := logS ss @ [lit ''Hint for '' @ title (STAGES ! stageIdxS ss) @ lit '': ''
                                    @ hint (STAGES ! stageIdxS ss)]\<rparr>
        else if stageIdxS ss + 1 < length STAGES then ss\<lparr>stageIdxS := stageIdxS ss + 1\<rparr>
        else ss\<lparr>showBest := True\<rparr>)
   \<and> (\<forall>actionId now. stageIdxS (handleS ss (DropS actionId now)) = stageIdxS ss)
   \<and> (\<forall>v. stageIdxS (handleS ss (Typed v)) = stageIdxS ss)
   \<and> stageIdxS (handleS ss NeedHint) = stageIdxS ss
   \<and> stageIdxS (handleS ss Restart) = 0"
proof -
  assume r: "reachable st" and rs: "reachableS ss"
  have i: "stageIdx st < length STAGES" using r by (rule reachable_stageIdx)
  have j: "stageIdxS ss < length STAGES" using rs by (rule reachableS_stageIdx)
  have n: "handle st Next =
       (if \<not> canAdvance (count_of st (key (STAGES ! stageIdx st)))
        then st\<lparr>log := log st @ [lit ''Hint for '' @ title (STAGES ! stageIdx st) @ lit '': ''
                                  @ hint (STAGES ! stageIdx st)]\<rparr>
        else if stageIdx st + 1 < length STAGES then st\<lparr>stageIdx := stageIdx st + 1\<rparr>
        else st\<lparr>log := log st @ [completion_message]\<rparr>)"
    using i by (auto simp: handle_def nextStage_def Let_def)
  have d: "stageIdx (handle st (Drop actionId idx)) = stageIdx st" for actionId idx
    by (auto simp: handle_def applyActionAt_def Let_def split: sum.splits option.splits)
  have rs1: "stageIdx (handle st ResetStage) = stageIdx st"
    by (simp add: handle_def resetStage_def Let_def)
  have ra: "stageIdx (handle st ResetAll) = 0"
    by (simp add: handle_def resetAll_def)
  have ns: "handleS ss NextS =
       (if \<not> ok (scoreStage ss (STAGES ! stageIdxS ss))
        then ss\<lparr>logS := logS ss @ [lit ''Hint for '' @ title (STAGES ! stageIdxS ss) @ lit '': ''
                                    @ hint (STAGES ! stageIdxS ss)]\<rparr>
        else if stageIdxS ss + 1 < length STAGES then ss\<lparr>stageIdxS := stageIdxS ss + 1\<rparr>
        else ss\<lparr>showBest := True\<rparr>)"
    using j by (auto simp: handleS_def goNext_def Let_def)
  have ds: "stageIdxS (handleS ss (DropS actionId now)) = stageIdxS ss" for actionId now
    by (simp add: handleS_def applyAction_def record_of_def Let_def)
  have ty: "stageIdxS (handleS ss (Typed v)) = stageIdxS ss" for v
    by (simp add: handleS_def setCustomException_def)
  have nh: "stageIdxS (handleS ss NeedHint) = stageIdxS ss"
    by (simp add: handleS_def needHint_def)
  have re: "stageIdxS (handleS ss Restart) = 0"
    by (simp add: handleS_def reset_def)
  from i n d rs1 ra j ns ds ty nh re show ?thesis by blast
qed

text \<open>
  The theorem after one Catch on the first stage of the per-line engine and after a Catch
  and a Throw on the first stage of the per-stage engine: Next moves both to stage 1.
\<close>

theorem stage_index_transitions_witness:
  "reachable (handle initial_state (Drop (lit ''catch'') 1))
   \<and> reachableS (foldl handleS initial_strict [DropS (lit ''catch'') 1, DropS (lit ''throw'') 2])
   \<and> stageIdx (handle initial_state (Drop (lit ''catch'') 1)) = 0
   \<and> stageIdx (handle (handle initial_state (Drop (lit ''catch'') 1)) Next) = 1
   \<and> stageIdxS (foldl handleS initial_strict [DropS (lit ''catch'') 1, DropS (lit ''throw'') 2]) = 0
   \<and> stageIdxS (handleS (foldl handleS initial_strict
          [DropS (lit ''catch'') 1, DropS (lit ''throw'') 2]) NextS) = 1"
proof -
  let ?st = "handle initial_state (Drop (lit ''catch'') 1)"
  let ?ss = "foldl handleS initial_strict [DropS (lit ''catch'') 1, DropS (lit ''throw'') 2]"
  have r: "reachable ?st" by (rule r_step) (rule r_init)
  have rs: "reachableS ?ss" by (rule reachableS_run) (rule s_init)
  have i0: "stageIdx ?st = 0" by (simp only: catch_line1_state) simp
  have j0: "stageIdxS ?ss = 0" by (simp only: two_drops_strict) simp
  have c: "canAdvance (count_of ?st (key (STAGES ! stageIdx ?st)))"
    unfolding i0 unfolding catch_line1_state
    by (simp add: canAdvance_def count_of_def stage0_fields)
  have o: "ok (scoreStage ?ss (STAGES ! stageIdxS ?ss))"
    unfolding j0 unfolding two_drops_strict
    by (simp add: scoreStage_def used_values_def record_of_def stage0_fields is_action_def lit_def)
  from stage_index_transitions [OF r rs]
  have n: "handle ?st Next =
       (if \<not> canAdvance (count_of ?st (key (STAGES ! stageIdx ?st)))
        then ?st\<lparr>log := log ?st @ [lit ''Hint for '' @ title (STAGES ! stageIdx ?st) @ lit '': ''
                                  @ hint (STAGES ! stageIdx ?st)]\<rparr>
        else if stageIdx ?st + 1 < length STAGES then ?st\<lparr>stageIdx := stageIdx ?st + 1\<rparr>
        else ?st\<lparr>log := log ?st @ [completion_message]\<rparr>)"
    and ns: "handleS ?ss NextS =
       (if \<not> ok (scoreStage ?ss (STAGES ! stageIdxS ?ss))
        then ?ss\<lparr>logS := logS ?ss @ [lit ''Hint for '' @ title (STAGES ! stageIdxS ?ss) @ lit '': ''
                                    @ hint (STAGES ! stageIdxS ?ss)]\<rparr>
        else if stageIdxS ?ss + 1 < length STAGES then ?ss\<lparr>stageIdxS := stageIdxS ?ss + 1\<rparr>
        else ?ss\<lparr>showBest := True\<rparr>)"
    by blast+
  have "stageIdx (handle ?st Next) = 1"
    unfolding n using c i0 by (simp add: length_STAGES)
  moreover have "stageIdxS (handleS ?ss NextS) = 1"
    unfolding ns using o j0 by (simp add: length_STAGES)
  ultimately show ?thesis using r rs i0 j0 by blast
qed

section \<open>Resetting\<close>

text \<open>
  Claim C7. From every state, hence from every reachable one, Restart returns the state
  to its initial value. In the per-line engine \<open>resetAll\<close> yields the initial state itself:
  stage index 0, every stage's working lines equal to its template, no applied-action count,
  an empty log. In the per-stage engine \<open>reset\<close> yields the initial stage index, applied-action
  records, log and reveal flag. The exception name typed into the input field, which is the
  parameter of the next Throw and not among the items the claim lists, is kept.
\<close>

theorem resetAll_restores_initial_state:
  "resetAll st = initial_state
   \<and> handle st ResetAll = initial_state
   \<and> (\<forall>i < length STAGES.
         linesByStage (resetAll st) (key (STAGES ! i)) = Some (snippet (STAGES ! i))
         \<and> count_of (resetAll st) (key (STAGES ! i)) = 0)
   \<and> handleS ss Restart = reset ss
   \<and> stageIdxS (reset ss) = stageIdxS initial_strict
   \<and> applied (reset ss) = applied initial_strict
   \<and> logS (reset ss) = logS initial_strict
   \<and> showBest (reset ss) = showBest initial_strict
   \<and> customException (reset ss) = customException ss"
proof -
  have a: "resetAll st = initial_state"
    by (simp add: resetAll_def initial_state_def)
  have b: "handle st ResetAll = initial_state"
    by (simp add: handle_def a)
  have c: "\<forall>i < length STAGES.
         linesByStage (resetAll st) (key (STAGES ! i)) = Some (snippet (STAGES ! i))
         \<and> count_of (resetAll st) (key (STAGES ! i)) = 0"
    by (simp add: resetAll_def initial_lines_stage count_of_def)
  have d: "handleS ss Restart = reset ss" by (simp add: handleS_def)
  show ?thesis using a b c d by (simp add: reset_def initial_strict_def)
qed

text \<open>The theorem after one Catch on the first stage, which had changed its lines.\<close>

theorem resetAll_restores_initial_state_witness:
  \<open>(0::nat) < length STAGES
   \<and> linesByStage (resetAll (handle initial_state (Drop (lit ''catch'') 1))) (lit ''kafka-loop'')
       = Some [lit ''for (Record record : stream) {'',
               lit ''    processMessage(record); // may call networkCall()'',
               lit ''}'']
   \<and> linesByStage (handle initial_state (Drop (lit ''catch'') 1)) (lit ''kafka-loop'')
       \<noteq> Some [lit ''for (Record record : stream) {'',
               lit ''    processMessage(record); // may call networkCall()'',
               lit ''}'']
   \<and> resetAll (handle initial_state (Drop (lit ''catch'') 1)) = initial_state\<close>
proof -
  let ?st = "handle initial_state (Drop (lit ''catch'') 1)"
  have h: "(0::nat) < length STAGES" by (simp add: length_STAGES)
  from resetAll_restores_initial_state [of ?st initial_strict]
  have a: "resetAll ?st = initial_state"
    and b: "\<forall>i < length STAGES.
         linesByStage (resetAll ?st) (key (STAGES ! i)) = Some (snippet (STAGES ! i))
         \<and> count_of (resetAll ?st) (key (STAGES ! i)) = 0"
    by blast+
  from b h have "linesByStage (resetAll ?st) (key (STAGES ! 0)) = Some (snippet (STAGES ! 0))"
    by blast
  then have c: \<open>linesByStage (resetAll ?st) (lit ''kafka-loop'')
       = Some [lit ''for (Record record : stream) {'',
               lit ''    processMessage(record); // may call networkCall()'',
               lit ''}'']\<close>
    by (simp only: stage0_fields)
  have d: \<open>linesByStage ?st (lit ''kafka-loop'')
       \<noteq> Some [lit ''for (Record record : stream) {'',
               lit ''    processMessage(record); // may call networkCall()'',
               lit ''}'']\<close>
    by (simp only: catch_line1_state) simp
  show ?thesis using h a c d by blast
qed

text \<open>
  Claim C8. In every reachable state, whatever was applied before, \<open>resetStage\<close> returns
  normally, sets the working lines of the active stage to the template of that stage (the
  lines it has in the initial state), sets its applied-action count to 0 and appends one
  entry to the log, \<^verbatim>\<open>Reset <stage title>\<close>. The stage index and the lines and counts of every
  other key are left.
\<close>

theorem resetStage_restores_template:
  "reachable st \<Longrightarrow>
   (\<exists>st'. resetStage st = Inr st' \<and> handle st ResetStage = st'
      \<and> linesByStage st' (key (STAGES ! stageIdx st)) = Some (snippet (STAGES ! stageIdx st))
      \<and> linesByStage st' (key (STAGES ! stageIdx st))
          = linesByStage initial_state (key (STAGES ! stageIdx st))
      \<and> appliedCounts st' (key (STAGES ! stageIdx st)) = Some 0
      \<and> count_of st' (key (STAGES ! stageIdx st)) = 0
      \<and> log st' = log st @ [lit ''Reset '' @ title (STAGES ! stageIdx st)]
      \<and> stageIdx st' = stageIdx st
      \<and> (\<forall>k. k \<noteq> key (STAGES ! stageIdx st) \<longrightarrow>
            linesByStage st' k = linesByStage st k \<and> appliedCounts st' k = appliedCounts st k))"
proof -
  assume r: "reachable st"
  have i: "stageIdx st < length STAGES" using r by (rule reachable_stageIdx)
  define st' where "st' =
    st\<lparr>linesByStage := (linesByStage st)(key (STAGES ! stageIdx st) \<mapsto> snippet (STAGES ! stageIdx st)),
       appliedCounts := (appliedCounts st)(key (STAGES ! stageIdx st) \<mapsto> 0),
       log := log st @ [lit ''Reset '' @ title (STAGES ! stageIdx st)]\<rparr>"
  have a: "resetStage st = Inr st'"
    using i by (simp add: resetStage_def Let_def st'_def)
  then have b: "handle st ResetStage = st'" by (simp add: handle_def)
  have c: "linesByStage initial_state (key (STAGES ! stageIdx st)) = Some (snippet (STAGES ! stageIdx st))"
    using i by (simp add: initial_state_def initial_lines_stage)
  show ?thesis
    apply (rule exI[of _ st'])
    using a b c by (simp add: st'_def count_of_def)
qed

text \<open>The theorem after one Catch on the first stage: seven lines become the three of the template.\<close>

theorem resetStage_restores_template_witness:
  \<open>reachable (handle initial_state (Drop (lit ''catch'') 1))
   \<and> length (the (linesByStage (handle initial_state (Drop (lit ''catch'') 1)) (lit ''kafka-loop''))) = 7
   \<and> count_of (handle initial_state (Drop (lit ''catch'') 1)) (lit ''kafka-loop'') = 1
   \<and> linesByStage (handle (handle initial_state (Drop (lit ''catch'') 1)) ResetStage) (lit ''kafka-loop'')
       = Some [lit ''for (Record record : stream) {'',
               lit ''    processMessage(record); // may call networkCall()'',
               lit ''}'']
   \<and> count_of (handle (handle initial_state (Drop (lit ''catch'') 1)) ResetStage) (lit ''kafka-loop'') = 0
   \<and> log (handle (handle initial_state (Drop (lit ''catch'') 1)) ResetStage)
       = [lit ''Applied catch to line 2 in Stage 1 '' @ [0x2014] @ lit '' Streaming loop'',
          lit ''Reset Stage 1 '' @ [0x2014] @ lit '' Streaming loop'']
   \<and> lit ''repo-optional'' \<noteq> key (STAGES ! stageIdx (handle initial_state (Drop (lit ''catch'') 1)))
   \<and> linesByStage (handle (handle initial_state (Drop (lit ''catch'') 1)) ResetStage) (lit ''repo-optional'')
       = linesByStage (handle initial_state (Drop (lit ''catch'') 1)) (lit ''repo-optional'')\<close>
proof -
  let ?st = "handle initial_state (Drop (lit ''catch'') 1)"
  have r: "reachable ?st" by (rule r_step) (rule r_init)
  have i0: "stageIdx ?st = 0" by (simp only: catch_line1_state) simp
  have l0: \<open>log ?st = [lit ''Applied catch to line 2 in Stage 1 '' @ [0x2014] @ lit '' Streaming loop'']\<close>
    by (simp only: catch_line1_state) simp
  have a: "length (the (linesByStage ?st (lit ''kafka-loop''))) = 7"
    by (simp only: catch_line1_state) simp
  have b: "count_of ?st (lit ''kafka-loop'') = 1"
    by (simp only: catch_line1_state) (simp add: count_of_def)
  from resetStage_restores_template [OF r] obtain st' where
    s: "handle ?st ResetStage = st'"
       "linesByStage st' (key (STAGES ! stageIdx ?st)) = Some (snippet (STAGES ! stageIdx ?st))"
       "count_of st' (key (STAGES ! stageIdx ?st)) = 0"
       "log st' = log ?st @ [lit ''Reset '' @ title (STAGES ! stageIdx ?st)]"
       "\<forall>k. k \<noteq> key (STAGES ! stageIdx ?st) \<longrightarrow>
            linesByStage st' k = linesByStage ?st k \<and> appliedCounts st' k = appliedCounts ?st k"
    by blast
  have c: \<open>linesByStage (handle ?st ResetStage) (lit ''kafka-loop'')
       = Some [lit ''for (Record record : stream) {'',
               lit ''    processMessage(record); // may call networkCall()'',
               lit ''}'']\<close>
    using s(2) unfolding s(1) i0 by (simp only: stage0_fields)
  have d: "count_of (handle ?st ResetStage) (lit ''kafka-loop'') = 0"
    using s(3) unfolding s(1) i0 by (simp only: stage0_fields)
  have e: \<open>log (handle ?st ResetStage)
       = [lit ''Applied catch to line 2 in Stage 1 '' @ [0x2014] @ lit '' Streaming loop'',
          lit ''Reset Stage 1 '' @ [0x2014] @ lit '' Streaming loop'']\<close>
    using s(4) unfolding s(1) i0 l0 by (simp add: stage0_fields lit_def)
  have f: "lit ''repo-optional'' \<noteq> key (STAGES ! stageIdx ?st)"
    unfolding i0 by (simp add: stage0_fields lit_def)
  with s(5) have "linesByStage st' (lit ''repo-optional'') = linesByStage ?st (lit ''repo-optional'')"
    by blast
  then have g: "linesByStage (handle ?st ResetStage) (lit ''repo-optional'')
       = linesByStage ?st (lit ''repo-optional'')"
    unfolding s(1) .
  show ?thesis using r a b c d e f g by blast
qed

lemma stage_keys_differ:
  "i < length STAGES \<Longrightarrow> j < length STAGES \<Longrightarrow> j \<noteq> i \<Longrightarrow> key (STAGES ! j) \<noteq> key (STAGES ! i)"
  using keys_distinct by (simp add: distinct_conv_nth)

lemma stage1_fields:
  "key (STAGES ! 1) = lit ''repo-optional''"
  \<open>snippet (STAGES ! 1) = [lit ''public Optional<User> findByEmail(String email) {'',
         lit ''    // query DB...'',
         lit ''    return Optional.empty(); // sometimes; distinguish from DB failure'',
         lit ''}'']\<close>
  by (simp_all add: STAGES_def)

section \<open>Applying an action\<close>

text \<open>
  Claim C9. A drop on a line of the active stage changes the working lines and the
  applied-action count of that stage only: under every other key, and so for every other
  stage of the registry, both are as before, and the stage index is unchanged. Next changes
  no working lines and no count, so the edits of a stage are kept when the stage changes.
\<close>

theorem applyActionAt_frame:
  "(\<forall>k. k \<noteq> key (STAGES ! stageIdx st) \<longrightarrow>
        linesByStage (handle st (Drop actionId idx)) k = linesByStage st k
        \<and> appliedCounts (handle st (Drop actionId idx)) k = appliedCounts st k)
   \<and> (\<forall>j < length STAGES. j \<noteq> stageIdx st \<longrightarrow>
        linesByStage (handle st (Drop actionId idx)) (key (STAGES ! j))
          = linesByStage st (key (STAGES ! j))
        \<and> count_of (handle st (Drop actionId idx)) (key (STAGES ! j))
          = count_of st (key (STAGES ! j)))
   \<and> stageIdx (handle st (Drop actionId idx)) = stageIdx st
   \<and> linesByStage (handle st Next) = linesByStage st
   \<and> appliedCounts (handle st Next) = appliedCounts st"
proof -
  let ?st' = "handle st (Drop actionId idx)"
  have a: "linesByStage ?st' k = linesByStage st k \<and> appliedCounts ?st' k = appliedCounts st k"
    if "k \<noteq> key (STAGES ! stageIdx st)" for k
    using that
    by (auto simp: handle_def applyActionAt_def Let_def split: sum.splits option.splits if_splits)
  have i: "stageIdx ?st' = stageIdx st"
    by (auto simp: handle_def applyActionAt_def Let_def split: sum.splits option.splits if_splits)
  have b: "linesByStage ?st' (key (STAGES ! j)) = linesByStage st (key (STAGES ! j))
        \<and> count_of ?st' (key (STAGES ! j)) = count_of st (key (STAGES ! j))"
    if j: "j < length STAGES" "j \<noteq> stageIdx st" for j
  proof (cases "stageIdx st < length STAGES")
    case True
    then have "key (STAGES ! j) \<noteq> key (STAGES ! stageIdx st)"
      using j by (intro stage_keys_differ)
    then show ?thesis using a by (simp add: count_of_def)
  next
    case False
    then have "?st' = st" by (simp add: handle_def applyActionAt_def)
    then show ?thesis by simp
  qed
  have n: "linesByStage (handle st Next) = linesByStage st
        \<and> appliedCounts (handle st Next) = appliedCounts st"
    by (simp add: handle_def nextStage_def Let_def)
  from a b i n show ?thesis by blast
qed

text \<open>The theorem at a Catch on the first stage: the second stage keeps its template.\<close>

theorem applyActionAt_frame_witness:
  \<open>(1::nat) < length STAGES \<and> 1 \<noteq> stageIdx initial_state
   \<and> lit ''repo-optional'' \<noteq> key (STAGES ! stageIdx initial_state)
   \<and> linesByStage (handle initial_state (Drop (lit ''catch'') 1)) (lit ''repo-optional'')
        = Some [lit ''public Optional<User> findByEmail(String email) {'',
                lit ''    // query DB...'',
                lit ''    return Optional.empty(); // sometimes; distinguish from DB failure'',
                lit ''}'']
   \<and> count_of (handle initial_state (Drop (lit ''catch'') 1)) (lit ''repo-optional'') = 0
   \<and> linesByStage (handle initial_state (Drop (lit ''catch'') 1)) (lit ''kafka-loop'')
        \<noteq> linesByStage initial_state (lit ''kafka-loop'')\<close>
proof -
  let ?st = "handle initial_state (Drop (lit ''catch'') 1)"
  have h1: "(1::nat) < length STAGES" by (simp add: length_STAGES)
  have h2: "1 \<noteq> stageIdx initial_state" by (simp add: initial_state_def)
  have h3: "lit ''repo-optional'' \<noteq> key (STAGES ! stageIdx initial_state)"
    by (simp add: initial_state_def stage0_fields lit_def)
  from applyActionAt_frame [of initial_state "lit ''catch''" 1] h1 h2
  have e1: "linesByStage ?st (key (STAGES ! 1)) = linesByStage initial_state (key (STAGES ! 1))"
    and e2: "count_of ?st (key (STAGES ! 1)) = count_of initial_state (key (STAGES ! 1))"
    by blast+
  have il: "linesByStage initial_state (key (STAGES ! 1)) = Some (snippet (STAGES ! 1))"
    using initial_lines_stage [OF h1] by (simp add: initial_state_def)
  have ic: "count_of initial_state (key (STAGES ! 1)) = 0"
    by (simp add: initial_state_def count_of_def)
  note a = e1 [unfolded il, unfolded stage1_fields]
  note b = e2 [unfolded ic, unfolded stage1_fields]
  have c: "linesByStage ?st (lit ''kafka-loop'') \<noteq> linesByStage initial_state (lit ''kafka-loop'')"
    by (simp only: catch_line1_state) (simp add: initial_state_def initial_lines_kafka)
  show ?thesis using h1 h2 h3 a b c by blast
qed

text \<open>
  Claim C10. In every reachable state of the per-line engine, a drop whose action
  identifier is none of \<^verbatim>\<open>throw\<close>, \<^verbatim>\<open>catch\<close>, \<^verbatim>\<open>opt\<close> returns normally at any line
  index, leaves the working lines of every stage, adds one to the applied-action count of
  the active stage and appends one log entry. The count is then positive, so \<open>canAdvance\<close>
  holds and the next Next is not blocked.
\<close>

theorem unknown_action_still_counts:
  "reachable st \<Longrightarrow> actionId \<noteq> lit ''throw'' \<Longrightarrow> actionId \<noteq> lit ''catch'' \<Longrightarrow>
   actionId \<noteq> lit ''opt'' \<Longrightarrow>
   (\<exists>st'. applyActionAt st actionId idx = Inr st' \<and> handle st (Drop actionId idx) = st'
      \<and> linesByStage st' = linesByStage st
      \<and> count_of st' (key (STAGES ! stageIdx st)) = count_of st (key (STAGES ! stageIdx st)) + 1
      \<and> log st' = log st @ [lit ''Applied '' @ actionId @ lit '' to line '' @ show_nat (idx + 1)
                              @ lit '' in '' @ title (STAGES ! stageIdx st)]
      \<and> stageIdx st' = stageIdx st
      \<and> canAdvance (count_of st' (key (STAGES ! stageIdx st')))
      \<and> handle st' Next =
          (if stageIdx st + 1 < length STAGES then st'\<lparr>stageIdx := stageIdx st + 1\<rparr>
           else st'\<lparr>log := log st' @ [completion_message]\<rparr>))"
proof -
  assume r: "reachable st" and ne: "actionId \<noteq> lit ''throw''" "actionId \<noteq> lit ''catch''"
    "actionId \<noteq> lit ''opt''"
  let ?k = "key (STAGES ! stageIdx st)"
  have i: "stageIdx st < length STAGES" using r by (rule reachable_stageIdx)
  from reachable_lines [OF r] i obtain lines where l: "linesByStage st ?k = Some lines"
    by blast
  define st' where "st' =
    st\<lparr>linesByStage := (linesByStage st)(?k \<mapsto> lines),
       appliedCounts := (appliedCounts st)(?k \<mapsto> count_of st ?k + 1),
       log := log st @ [lit ''Applied '' @ actionId @ lit '' to line '' @ show_nat (idx + 1)
                        @ lit '' in '' @ title (STAGES ! stageIdx st)]\<rparr>"
  have a: "applyActionAt st actionId idx = Inr st'"
    using i l ne by (simp add: applyActionAt_def Let_def st'_def)
  then have b: "handle st (Drop actionId idx) = st'" by (simp add: handle_def)
  have c: "linesByStage st' = linesByStage st"
    using l by (simp add: st'_def map_upd_triv)
  have d: "count_of st' ?k = count_of st ?k + 1" by (simp add: st'_def count_of_def)
  have e: "stageIdx st' = stageIdx st" by (simp add: st'_def)
  have f: "canAdvance (count_of st' (key (STAGES ! stageIdx st')))"
    unfolding e d by (simp add: canAdvance_def)
  have g: "handle st' Next =
          (if stageIdx st + 1 < length STAGES then st'\<lparr>stageIdx := stageIdx st + 1\<rparr>
           else st'\<lparr>log := log st' @ [completion_message]\<rparr>)"
    using f i e by (auto simp: handle_def nextStage_def Let_def)
  show ?thesis
    apply (rule exI[of _ st'])
    using a b c d e f g by (simp add: st'_def)
qed

text \<open>The theorem at the first render: one unknown drop, then Next reaches stage 1.\<close>

theorem unknown_action_still_counts_witness:
  "reachable initial_state
   \<and> lit ''hello'' \<noteq> lit ''throw'' \<and> lit ''hello'' \<noteq> lit ''catch'' \<and> lit ''hello'' \<noteq> lit ''opt''
   \<and> \<not> canAdvance (count_of initial_state (key (STAGES ! stageIdx initial_state)))
   \<and> linesByStage (handle initial_state (Drop (lit ''hello'') 0)) = linesByStage initial_state
   \<and> canAdvance (count_of (handle initial_state (Drop (lit ''hello'') 0))
        (key (STAGES ! stageIdx initial_state)))
   \<and> stageIdx (handle (handle initial_state (Drop (lit ''hello'') 0)) Next) = 1"
proof -
  have ne: "lit ''hello'' \<noteq> lit ''throw''" "lit ''hello'' \<noteq> lit ''catch''" "lit ''hello'' \<noteq> lit ''opt''"
    by (simp_all add: lit_def)
  have n: "\<not> canAdvance (count_of initial_state (key (STAGES ! stageIdx initial_state)))"
    by (simp add: canAdvance_def count_of_def initial_state_def)
  have i0: "stageIdx initial_state = 0" by (simp add: initial_state_def)
  from unknown_action_still_counts [OF r_init ne, of 0] obtain st' where
    s: "handle initial_state (Drop (lit ''hello'') 0) = st'"
       "linesByStage st' = linesByStage initial_state"
       "stageIdx st' = stageIdx initial_state"
       "canAdvance (count_of st' (key (STAGES ! stageIdx st')))"
       "handle st' Next =
          (if stageIdx initial_state + 1 < length STAGES then st'\<lparr>stageIdx := stageIdx initial_state + 1\<rparr>
           else st'\<lparr>log := log st' @ [completion_message]\<rparr>)"
    by blast
  have "stageIdx (handle st' Next) = 1"
    unfolding s(5) by (simp add: i0 length_STAGES)
  then show ?thesis using r_init ne n s by simp
qed

section \<open>The strict advancement policy\<close>

lemma is_action_kind_of:
  assumes "0x3A \<notin> set k"
  shows "is_action u k \<longleftrightarrow> kind_of u = k"
proof -
  let ?P = "\<lambda>c::jschar. c \<noteq> 0x3A"
  have c: "lit '':'' = [0x3A]" by (simp add: lit_def)
  have k: "takeWhile ?P k = k" using assms by (auto simp: takeWhile_eq_all_conv)
  show ?thesis
  proof
    assume "is_action u k"
    then consider "u = k" | "take (length k + 1) u = k @ [0x3A]"
      unfolding is_action_def c by auto
    then show "kind_of u = k"
    proof cases
      case 1
      then show ?thesis using k by (simp add: kind_of_def)
    next
      case 2
      have "u = take (length k + 1) u @ drop (length k + 1) u" by (simp only: append_take_drop_id)
      then have "u = (k @ [0x3A]) @ drop (length k + 1) u" by (simp only: 2)
      then have "u = k @ 0x3A # drop (length k + 1) u" by simp
      then have "takeWhile ?P u = takeWhile ?P (k @ 0x3A # drop (length k + 1) u)" by simp
      also have "\<dots> = takeWhile ?P k" by (rule takeWhile_tail) simp
      finally show ?thesis using k by (simp add: kind_of_def)
    qed
  next
    assume a: "kind_of u = k"
    have u: "u = k @ dropWhile ?P u"
      using a takeWhile_dropWhile_id[of ?P u] by (simp add: kind_of_def)
    show "is_action u k"
    proof (cases "dropWhile ?P u")
      case Nil
      with u show ?thesis by (simp add: is_action_def)
    next
      case (Cons x xs)
      have "dropWhile ?P u \<noteq> []" using Cons by simp
      then have "\<not> ?P (hd (dropWhile ?P u))" by (rule hd_dropWhile)
      with Cons have "x = 0x3A" by simp
      with u Cons have "u = k @ 0x3A # xs" by simp
      then have "take (length k + 1) u = take (length k + 1) (k @ 0x3A # xs)" by simp
      then have "take (length k + 1) u = k @ [0x3A]" by simp
      then show ?thesis by (simp add: is_action_def c)
    qed
  qed
qed

lemma expected_keys_plain:
  "s \<in> set STAGES \<Longrightarrow> k \<in> set (expectedKeys s) \<Longrightarrow> 0x3A \<notin> set k"
proof -
  assume "s \<in> set STAGES" "k \<in> set (expectedKeys s)"
  then have "k \<in> {lit ''catch'', lit ''throw'', lit ''opt''}"
    by (auto simp: STAGES_def)
  then show ?thesis by (auto simp: lit_def)
qed

lemma score_ok_iff:
  assumes "s \<in> set STAGES"
  shows "ok (scoreStage ss s) \<longleftrightarrow> set (expectedKeys s) \<subseteq> kind_of ` set (used_values ss (key s))"
proof -
  let ?u = "used_values ss (key s)"
  have ia: "is_action u k \<longleftrightarrow> kind_of u = k" if "k \<in> set (expectedKeys s)" for u k
    using expected_keys_plain[OF assms that] by (rule is_action_kind_of)
  have "ok (scoreStage ss s) \<longleftrightarrow> (\<forall>k \<in> set (expectedKeys s). \<exists>u \<in> set ?u. is_action u k)"
    by (simp add: scoreStage_def Let_def list_all_iff list_ex_iff)
  also have "\<dots> \<longleftrightarrow> (\<forall>k \<in> set (expectedKeys s). \<exists>u \<in> set ?u. kind_of u = k)"
    using ia by simp
  also have "\<dots> \<longleftrightarrow> set (expectedKeys s) \<subseteq> kind_of ` set ?u" by auto
  finally show ?thesis .
qed

lemma put_fresh: "k \<notin> fst ` set al \<Longrightarrow> put k v al = al @ [(k, v)]"
  by (induction al) auto

text \<open>One drop under a fresh time stamp adds its kind; an edit of the name adds nothing.\<close>

lemma drop_step:
  assumes i: "stageIdxS ss < length STAGES"
    and f: "now \<notin> fst ` set (record_of ss (key (STAGES ! stageIdxS ss)))"
    and a: "actionId \<in> {lit ''throw'', lit ''catch'', lit ''opt''}"
  shows "stageIdxS (handleS ss (DropS actionId now)) = stageIdxS ss"
    and "kind_of ` set (used_values (handleS ss (DropS actionId now)) (key (STAGES ! stageIdxS ss)))
          = insert actionId (kind_of ` set (used_values ss (key (STAGES ! stageIdxS ss))))"
    and "fst ` set (record_of (handleS ss (DropS actionId now)) (key (STAGES ! stageIdxS ss)))
          = insert now (fst ` set (record_of ss (key (STAGES ! stageIdxS ss))))"
proof -
  let ?k = "key (STAGES ! stageIdxS ss)"
  let ?al = "record_of ss ?k"
  let ?chosen = "if actionId = lit ''throw'' \<and> customException ss \<noteq> []
                 then lit ''throw:'' @ customException ss else actionId"
  show "stageIdxS (handleS ss (DropS actionId now)) = stageIdxS ss"
    by (simp add: handleS_def applyAction_def Let_def)
  have "record_of (handleS ss (DropS actionId now)) ?k = put now ?chosen ?al"
    using i by (simp add: handleS_def applyAction_def Let_def record_of_def)
  then have r: "record_of (handleS ss (DropS actionId now)) ?k = ?al @ [(now, ?chosen)]"
    using put_fresh[OF f] by simp
  have e: "used_values (handleS ss (DropS actionId now)) ?k = used_values ss ?k @ [?chosen]"
    unfolding used_values_def r by simp
  have "kind_of (lit ''throw:'' @ x) = lit ''throw''" for x
    by (simp add: kind_of_def lit_def)
  moreover have "kind_of actionId = actionId"
    using a by (auto simp: kind_of_def lit_def)
  ultimately have "kind_of ?chosen = actionId" by simp
  then show "kind_of ` set (used_values (handleS ss (DropS actionId now)) ?k)
          = insert actionId (kind_of ` set (used_values ss ?k))"
    unfolding e by simp
  show "fst ` set (record_of (handleS ss (DropS actionId now)) ?k) = insert now (fst ` set ?al)"
    unfolding r by simp
qed

lemma typed_step:
  "stageIdxS (handleS ss (Typed v)) = stageIdxS ss"
  "used_values (handleS ss (Typed v)) k = used_values ss k"
  "record_of (handleS ss (Typed v)) k = record_of ss k"
  by (simp_all add: handleS_def setCustomException_def used_values_def record_of_def)

lemma drops_run:
  assumes "stageIdxS ss < length STAGES"
    and "list_all drop_or_typed evs"
    and "distinct (map snd (dropped evs))"
    and "snd ` set (dropped evs) \<inter> fst ` set (record_of ss (key (STAGES ! stageIdxS ss))) = {}"
    and "fst ` set (dropped evs) \<subseteq> {lit ''throw'', lit ''catch'', lit ''opt''}"
  shows "stageIdxS (foldl handleS ss evs) = stageIdxS ss
    \<and> kind_of ` set (used_values (foldl handleS ss evs) (key (STAGES ! stageIdxS ss)))
        = kind_of ` set (used_values ss (key (STAGES ! stageIdxS ss))) \<union> fst ` set (dropped evs)"
  using assms
proof (induction evs arbitrary: ss)
  case Nil
  then show ?case by (simp add: dropped_def)
next
  case (Cons e evs)
  let ?k = "key (STAGES ! stageIdxS ss)"
  from Cons.prems(2) have de: "drop_or_typed e" and dl: "list_all drop_or_typed evs" by simp_all
  show ?case
  proof (cases e)
    case (DropS a t)
    have d: "dropped (e # evs) = (a, t) # dropped evs" using DropS by (simp add: dropped_def)
    from Cons.prems(3,4,5) have
      f: "t \<notin> fst ` set (record_of ss ?k)" and
      a: "a \<in> {lit ''throw'', lit ''catch'', lit ''opt''}" and
      t: "t \<notin> snd ` set (dropped evs)" and
      di: "distinct (map snd (dropped evs))" and
      dj: "snd ` set (dropped evs) \<inter> fst ` set (record_of ss ?k) = {}" and
      su: "fst ` set (dropped evs) \<subseteq> {lit ''throw'', lit ''catch'', lit ''opt''}"
      unfolding d by auto
    note s = drop_step[OF Cons.prems(1) f a]
    let ?ss = "handleS ss (DropS a t)"
    have i': "stageIdxS ?ss < length STAGES" using Cons.prems(1) s(1) by simp
    have dj': "snd ` set (dropped evs) \<inter> fst ` set (record_of ?ss (key (STAGES ! stageIdxS ?ss))) = {}"
      unfolding s(1) s(3) using dj t by auto
    from Cons.IH[OF i' dl di dj' su]
    have "stageIdxS (foldl handleS ?ss evs) = stageIdxS ?ss"
      and "kind_of ` set (used_values (foldl handleS ?ss evs) (key (STAGES ! stageIdxS ?ss)))
        = kind_of ` set (used_values ?ss (key (STAGES ! stageIdxS ?ss))) \<union> fst ` set (dropped evs)"
      by simp_all
    then show ?thesis unfolding s(1) s(2) d using DropS by auto
  next
    case (Typed v)
    have d: "dropped (e # evs) = dropped evs" using Typed by (simp add: dropped_def)
    let ?ss = "handleS ss (Typed v)"
    have i': "stageIdxS ?ss < length STAGES" using Cons.prems(1) by (simp add: typed_step)
    from Cons.prems(3,4,5) have
      di: "distinct (map snd (dropped evs))" and
      dj': "snd ` set (dropped evs) \<inter> fst ` set (record_of ?ss (key (STAGES ! stageIdxS ?ss))) = {}" and
      su: "fst ` set (dropped evs) \<subseteq> {lit ''throw'', lit ''catch'', lit ''opt''}"
      unfolding d by (simp_all add: typed_step)
    from Cons.IH[OF i' dl di dj' su] show ?thesis
      unfolding d using Typed by (simp add: typed_step)
  next
    case NextS
    with de show ?thesis by (simp add: drop_or_typed_def)
  next
    case Restart
    with de show ?thesis by (simp add: drop_or_typed_def)
  next
    case NeedHint
    with de show ?thesis by (simp add: drop_or_typed_def)
  qed
qed

text \<open>
  Claim C4. For every stage of the registry and every applied-action record,
  \<open>scoreStage\<close> allows advancement exactly when every expected action kind of the stage is
  the kind of some recorded entry, the kind being the entry without its custom exception
  name. Entries of other kinds are only counted, in \<open>extras\<close>, and do not enter the
  verdict. In terms of the actions applied: on an active stage with nothing recorded yet,
  after any sequence of drops of the three actions, under time stamps that differ from one
  another, and of edits of the exception name in between, advancement is allowed exactly
  when the set of actions dropped contains the expected set of the stage.
\<close>

theorem strict_canAdvance_iff_superset:
  "s \<in> set STAGES \<Longrightarrow>
   (ok (scoreStage ss s) \<longleftrightarrow> set (expectedKeys s) \<subseteq> kind_of ` set (used_values ss (key s)))
   \<and> used (scoreStage ss s) = length (used_values ss (key s))
   \<and> extras (scoreStage ss s)
       = length (filter (\<lambda>u. kind_of u \<notin> set (expectedKeys s)) (used_values ss (key s)))
   \<and> (stageIdxS ss < length STAGES \<and> s = STAGES ! stageIdxS ss \<and> applied ss (key s) = None
        \<and> list_all drop_or_typed evs \<and> distinct (map snd (dropped evs))
        \<and> fst ` set (dropped evs) \<subseteq> {lit ''throw'', lit ''catch'', lit ''opt''} \<longrightarrow>
      (ok (scoreStage (foldl handleS ss evs) s)
         \<longleftrightarrow> set (expectedKeys s) \<subseteq> fst ` set (dropped evs)))"
proof -
  assume s: "s \<in> set STAGES"
  let ?u = "used_values ss (key s)"
  have ia: "is_action u k \<longleftrightarrow> kind_of u = k" if "k \<in> set (expectedKeys s)" for u k
    using expected_keys_plain[OF s that] by (rule is_action_kind_of)
  have a: "ok (scoreStage ss s) \<longleftrightarrow> set (expectedKeys s) \<subseteq> kind_of ` set ?u"
    using s by (rule score_ok_iff)
  have b: "used (scoreStage ss s) = length ?u" by (simp add: scoreStage_def Let_def)
  have "(\<not> list_ex (\<lambda>k. is_action u k) (expectedKeys s)) \<longleftrightarrow> kind_of u \<notin> set (expectedKeys s)" for u
    using ia by (auto simp: list_ex_iff)
  then have c: "extras (scoreStage ss s)
       = length (filter (\<lambda>u. kind_of u \<notin> set (expectedKeys s)) ?u)"
    by (simp add: scoreStage_def Let_def)
  have d: "ok (scoreStage (foldl handleS ss evs) s)
         \<longleftrightarrow> set (expectedKeys s) \<subseteq> fst ` set (dropped evs)"
    if h: "stageIdxS ss < length STAGES \<and> s = STAGES ! stageIdxS ss \<and> applied ss (key s) = None
        \<and> list_all drop_or_typed evs \<and> distinct (map snd (dropped evs))
        \<and> fst ` set (dropped evs) \<subseteq> {lit ''throw'', lit ''catch'', lit ''opt''}"
  proof -
    from h have i: "stageIdxS ss < length STAGES" and e: "s = STAGES ! stageIdxS ss"
      and n: "applied ss (key s) = None" and l: "list_all drop_or_typed evs"
      and di: "distinct (map snd (dropped evs))"
      and su: "fst ` set (dropped evs) \<subseteq> {lit ''throw'', lit ''catch'', lit ''opt''}"
      by blast+
    have r0: "record_of ss (key (STAGES ! stageIdxS ss)) = []"
      using n e by (simp add: record_of_def)
    then have u0: "used_values ss (key (STAGES ! stageIdxS ss)) = []"
      by (simp add: used_values_def)
    have dj: "snd ` set (dropped evs) \<inter> fst ` set (record_of ss (key (STAGES ! stageIdxS ss))) = {}"
      unfolding r0 by simp
    from drops_run[OF i l di dj su]
    have "kind_of ` set (used_values (foldl handleS ss evs) (key s)) = fst ` set (dropped evs)"
      unfolding u0 e by simp
    then show ?thesis using score_ok_iff[OF s, of "foldl handleS ss evs"] by simp
  qed
  show ?thesis
    apply (intro conjI impI)
       apply (rule a)
      apply (rule b)
     apply (rule c)
    apply (rule d)
    apply assumption
    done
qed

text \<open>
  The theorem on the first stage, which expects Catch and Throw: a Throw alone does not
  allow advancement; a Throw, a new exception name and a Catch do, and so does the record
  they leave.
\<close>

theorem strict_canAdvance_iff_superset_witness:
  "STAGES ! 0 \<in> set STAGES
   \<and> stageIdxS initial_strict < length STAGES \<and> STAGES ! 0 = STAGES ! stageIdxS initial_strict
   \<and> applied initial_strict (key (STAGES ! 0)) = None
   \<and> list_all drop_or_typed [DropS (lit ''throw'') 1, Typed (lit ''Boom''), DropS (lit ''catch'') 2]
   \<and> distinct (map snd (dropped [DropS (lit ''throw'') 1, Typed (lit ''Boom''), DropS (lit ''catch'') 2]))
   \<and> fst ` set (dropped [DropS (lit ''throw'') 1, Typed (lit ''Boom''), DropS (lit ''catch'') 2])
        \<subseteq> {lit ''throw'', lit ''catch'', lit ''opt''}
   \<and> expectedKeys (STAGES ! 0) = [lit ''catch'', lit ''throw'']
   \<and> \<not> ok (scoreStage (foldl handleS initial_strict [DropS (lit ''throw'') 1]) (STAGES ! 0))
   \<and> ok (scoreStage (foldl handleS initial_strict
            [DropS (lit ''throw'') 1, Typed (lit ''Boom''), DropS (lit ''catch'') 2]) (STAGES ! 0))
   \<and> used_values (foldl handleS initial_strict [DropS (lit ''throw'') 1]) (key (STAGES ! 0))
       = [lit ''throw:UpstreamUnavailableException'']
   \<and> kind_of (lit ''throw:UpstreamUnavailableException'') = lit ''throw''"
proof -
  let ?e1 = "[DropS (lit ''throw'') 1]"
  let ?e3 = "[DropS (lit ''throw'') 1, Typed (lit ''Boom''), DropS (lit ''catch'') 2]"
  have m: "STAGES ! 0 \<in> set STAGES" by (simp add: STAGES_def)
  have i: "stageIdxS initial_strict < length STAGES"
    by (simp add: initial_strict_def length_STAGES)
  have e: "STAGES ! 0 = STAGES ! stageIdxS initial_strict" by (simp add: initial_strict_def)
  have n: "applied initial_strict (key (STAGES ! 0)) = None" by (simp add: initial_strict_def)
  have ne: "lit ''catch'' \<noteq> lit ''throw''" "lit ''UpstreamUnavailableException'' \<noteq> []"
    by (simp_all add: lit_def)
  have l1: "list_all drop_or_typed ?e1" and l3: "list_all drop_or_typed ?e3"
    by (simp_all add: drop_or_typed_def)
  have d1: "dropped ?e1 = [(lit ''throw'', 1)]"
    and d3: "dropped ?e3 = [(lit ''throw'', 1), (lit ''catch'', 2)]"
    by (simp_all add: dropped_def)
  have di1: "distinct (map snd (dropped ?e1))" and di3: "distinct (map snd (dropped ?e3))"
    unfolding d1 d3 by simp_all
  have su1: "fst ` set (dropped ?e1) \<subseteq> {lit ''throw'', lit ''catch'', lit ''opt''}"
    and su3: "fst ` set (dropped ?e3) \<subseteq> {lit ''throw'', lit ''catch'', lit ''opt''}"
    unfolding d1 d3 by simp_all
  from strict_canAdvance_iff_superset [OF m, of initial_strict ?e1] i e n l1 di1 su1
  have a1: "ok (scoreStage (foldl handleS initial_strict ?e1) (STAGES ! 0))
         \<longleftrightarrow> set (expectedKeys (STAGES ! 0)) \<subseteq> fst ` set (dropped ?e1)"
    by blast
  from strict_canAdvance_iff_superset [OF m, of initial_strict ?e3] i e n l3 di3 su3
  have a3: "ok (scoreStage (foldl handleS initial_strict ?e3) (STAGES ! 0))
         \<longleftrightarrow> set (expectedKeys (STAGES ! 0)) \<subseteq> fst ` set (dropped ?e3)"
    by blast
  have n1: "\<not> ok (scoreStage (foldl handleS initial_strict ?e1) (STAGES ! 0))"
    unfolding a1 unfolding d1 stage0_fields(4) by (simp add: ne)
  have o3: "ok (scoreStage (foldl handleS initial_strict ?e3) (STAGES ! 0))"
    unfolding a3 unfolding d3 stage0_fields(4) by simp
  have u1: "used_values (foldl handleS initial_strict ?e1) (key (STAGES ! 0))
       = [lit ''throw:UpstreamUnavailableException'']"
    apply (simp add: handleS_def applyAction_def record_of_def used_values_def initial_strict_def
                     length_STAGES Let_def ne)
    apply (simp add: lit_def)
    done
  have k1: "kind_of (lit ''throw:UpstreamUnavailableException'') = lit ''throw''"
    by (simp add: kind_of_def lit_def)
  show ?thesis
    using m i e n l3 di3 su3 stage0_fields(4) n1 o3 u1 k1 by blast
qed

end
